theory Spec2Isabelle
  imports Main
begin

section \<open>Python objects, exceptions and failing runtime calls\<close>

text \<open>
  The extension stores arbitrary Python objects. An object is an opaque hashable entity
  (a QBAFArgument, a number, a string), a tuple, or one of the two unhashable containers
  the constructor accepts. A set is kept as the list of its members in iteration order;
  every statement below is about the members, never about the order.
\<close>

datatype pyobj = Obj nat | Tuple "pyobj list" | PyList "pyobj list" | PySet "pyobj list"

fun hashable :: "pyobj \<Rightarrow> bool" where
  "hashable (Obj n) = True"
| "hashable (Tuple xs) = (\<forall>x\<in>set xs. hashable x)"
| "hashable (PyList xs) = False"
| "hashable (PySet xs) = False"

text \<open>
  The exceptions the code can end with. \<open>SystemError\<close> is what the interpreter raises
  when a C function returns NULL with no exception set; \<open>Crash\<close> stands for the
  dereference of a NULL pointer in C.
\<close>

datatype error = TypeError | MemoryError | KeyError | SystemError | Crash

text \<open>
  Every C-API call whose failure the source detects or hands on to its caller can fail
  for a reason outside the program (memory exhaustion, an exception raised by a
  user-defined \<open>__hash__\<close> or \<open>__eq__\<close>). A fault schedule lists, for these calls in the
  order they are made, whether the call fails and with which exception; an exhausted
  schedule means no further failure. \<open>attempt\<close> consumes one entry and otherwise returns
  the call's own result.
\<close>

type_synonym faults = "error option list"

definition attempt :: "faults \<Rightarrow> error + 'a \<Rightarrow> (error + 'a) \<times> faults" where
  "attempt fs r = (case fs of [] \<Rightarrow> (r, []) | None # fs' \<Rightarrow> (r, fs') | Some e # fs' \<Rightarrow> (Inl e, fs'))"

type_synonym pyset = "pyobj list"
type_synonym pydict = "pyobj \<rightharpoonup> pyset"

definition PyTuple_Pack :: "faults \<Rightarrow> pyobj list \<Rightarrow> (error + pyobj) \<times> faults" where
  "PyTuple_Pack fs xs = attempt fs (Inr (Tuple xs))"

definition PySet_New :: "faults \<Rightarrow> pyobj list \<Rightarrow> (error + pyset) \<times> faults" where
  \<comment> \<open>\<open>PySet_New(iterable)\<close> on the items of the iterable; \<open>PySet_New(NULL)\<close> is \<open>PySet_New fs []\<close>.\<close>
  "PySet_New fs items =
     attempt fs (if \<forall>x\<in>set items. hashable x then Inr (remdups items) else Inl TypeError)"

definition PySet_Contains :: "faults \<Rightarrow> pyset \<Rightarrow> pyobj \<Rightarrow> (error + bool) \<times> faults" where
  "PySet_Contains fs s key = attempt fs (if hashable key then Inr (key \<in> set s) else Inl TypeError)"

definition PySet_Add :: "faults \<Rightarrow> pyset \<Rightarrow> pyobj \<Rightarrow> (error + pyset) \<times> faults" where
  "PySet_Add fs s key = attempt fs (if hashable key then Inr (List.insert key s) else Inl TypeError)"

definition PySet_Discard :: "faults \<Rightarrow> pyset \<Rightarrow> pyobj \<Rightarrow> (error + pyset) \<times> faults" where
  "PySet_Discard fs s key = attempt fs (if hashable key then Inr (removeAll key s) else Inl TypeError)"

definition PySet_Size :: "pyset \<Rightarrow> int" where
  "PySet_Size s = int (length s)"

definition PyDict_New :: "faults \<Rightarrow> (error + pydict) \<times> faults" where
  "PyDict_New fs = attempt fs (Inr Map.empty)"

definition PyDict_Contains :: "faults \<Rightarrow> pydict \<Rightarrow> pyobj \<Rightarrow> (error + bool) \<times> faults" where
  "PyDict_Contains fs d key = attempt fs (if hashable key then Inr (d key \<noteq> None) else Inl TypeError)"

definition PyDict_SetItem :: "faults \<Rightarrow> pydict \<Rightarrow> pyobj \<Rightarrow> pyset \<Rightarrow> (error + pydict) \<times> faults" where
  "PyDict_SetItem fs d key v = attempt fs (if hashable key then Inr (d(key \<mapsto> v)) else Inl TypeError)"

definition PyDict_GetItemWithError :: "faults \<Rightarrow> pydict \<Rightarrow> pyobj \<Rightarrow> (error + pyset) \<times> faults" where
  \<comment> \<open>NULL with an exception on failure; NULL without one (a \<open>SystemError\<close> for the caller)
      when the key is missing.\<close>
  "PyDict_GetItemWithError fs d key =
     attempt fs (if hashable key then (case d key of None \<Rightarrow> Inl SystemError | Some s \<Rightarrow> Inr s)
                 else Inl TypeError)"

definition PyDict_GetItem :: "faults \<Rightarrow> pydict \<Rightarrow> pyobj \<Rightarrow> pyset option \<times> faults" where
  \<comment> \<open>\<open>PyDict_GetItem\<close> suppresses every exception: it returns NULL both when the key is
      missing and when the lookup fails.\<close>
  "PyDict_GetItem fs d key =
     (case attempt fs (if hashable key then Inr (d key) else Inl TypeError) of
        (Inl e, fs') \<Rightarrow> (None, fs')
      | (Inr r, fs') \<Rightarrow> (r, fs'))"

definition PyObject_GetIter :: "faults \<Rightarrow> (error + unit) \<times> faults" where
  "PyObject_GetIter fs = attempt fs (Inr ())"

definition PyList_New :: "faults \<Rightarrow> (error + unit) \<times> faults" where
  "PyList_New fs = attempt fs (Inr ())"

text \<open>
  \<open>PyArg_ParseTupleAndKeywords(args, kwds, "O...O|", kwlist, ...)\<close> with only required
  object parameters: the positional arguments fill the first names, the keyword arguments
  the remaining ones; too many arguments, an unknown keyword, a parameter given twice or a
  missing parameter is a \<open>TypeError\<close> (the result \<open>None\<close> here).
\<close>

definition PyArg_ParseTupleAndKeywords ::
  "pyobj list \<Rightarrow> (string \<times> pyobj) list \<Rightarrow> string list \<Rightarrow> pyobj list option" where
  "PyArg_ParseTupleAndKeywords args kwds kwlist =
     (if length args + length kwds > length kwlist then None
      else if \<exists>k\<in>set (map fst kwds). k \<notin> set (drop (length args) kwlist) then None
      else if \<exists>n\<in>set (drop (length args) kwlist). map_of kwds n = None then None
      else Some (args @ map (\<lambda>n. the (map_of kwds n)) (drop (length args) kwlist)))"

section \<open>The relation store (relations.c)\<close>

record QBAFARelationsObject =
  relations :: pyset
  agent_patients :: pydict
  patient_agents :: pydict

datatype pytype = QBAFARelationsType

text \<open>
  \<open>QBAFARelations_new\<close> reads \<open>type->tp_alloc\<close> before anything else: a NULL \<open>type\<close> is
  a NULL dereference.
\<close>

definition QBAFARelations_new :: "faults \<Rightarrow> pytype option \<Rightarrow> (error + QBAFARelationsObject) \<times> faults" where
  "QBAFARelations_new fs type =
     (case type of
        None \<Rightarrow> (Inl Crash, fs)
      | Some t \<Rightarrow>
          (case attempt fs (Inr ()) of
             (Inl e, fs1) \<Rightarrow> (Inl e, fs1)
           | (Inr u, fs1) \<Rightarrow>
               (case PySet_New fs1 [] of
                  (Inl e, fs2) \<Rightarrow> (Inl e, fs2)
                | (Inr rel, fs2) \<Rightarrow>
                    (case PyDict_New fs2 of
                       (Inl e, fs3) \<Rightarrow> (Inl e, fs3)
                     | (Inr ap, fs3) \<Rightarrow>
                         (case PyDict_New fs3 of
                            (Inl e, fs4) \<Rightarrow> (Inl e, fs4)
                          | (Inr pa, fs4) \<Rightarrow>
                              (Inr \<lparr>relations = rel, agent_patients = ap, patient_agents = pa\<rparr>, fs4))))))"

text \<open>
  \<open>PyDict_GetItemDefaultPySet_New\<close> returns a borrowed reference to the set stored under
  \<open>key\<close>, after storing a new empty set there when the key is missing. The model returns
  the set together with the dictionary; the caller writes the set back after changing it,
  which is what the mutation through the borrowed reference does.
\<close>

definition PyDict_GetItemDefaultPySet_New ::
  "faults \<Rightarrow> pydict \<Rightarrow> pyobj \<Rightarrow> (error + pyset) \<times> pydict \<times> faults" where
  "PyDict_GetItemDefaultPySet_New fs dict key =
     (case PyDict_Contains fs dict key of
        (Inl e, fs1) \<Rightarrow> (Inl e, dict, fs1)
      | (Inr contains, fs1) \<Rightarrow>
          if \<not> contains then
            (case PySet_New fs1 [] of
               (Inl e, fs2) \<Rightarrow> (Inl e, dict, fs2)
             | (Inr s, fs2) \<Rightarrow>
                 (case PyDict_SetItem fs2 dict key s of
                    (Inl e, fs3) \<Rightarrow> (Inl e, dict, fs3)
                  | (Inr dict', fs3) \<Rightarrow> (Inr s, dict', fs3)))
          else
            (case PyDict_GetItemWithError fs1 dict key of
               (Inl e, fs2) \<Rightarrow> (Inl e, dict, fs2)
             | (Inr s, fs2) \<Rightarrow> (Inr s, dict, fs2)))"

text \<open>
  One step of the loops of \<open>QBAFARelations_init\<close> and the tail of \<open>QBAFARelations_add\<close>
  are the same four calls: fetch-or-create the agent's bucket, add the patient, fetch-or-
  create the patient's bucket, add the agent. Each failure returns at once, keeping what
  the earlier calls have already written.
\<close>

definition index_pair ::
  "faults \<Rightarrow> QBAFARelationsObject \<Rightarrow> pyobj \<Rightarrow> pyobj \<Rightarrow> (error + unit) \<times> QBAFARelationsObject \<times> faults" where
  "index_pair fs self agent patient =
     (case PyDict_GetItemDefaultPySet_New fs (agent_patients self) agent of
        (Inl e, d1, fs1) \<Rightarrow> (Inl e, self\<lparr>agent_patients := d1\<rparr>, fs1)
      | (Inr s1, d1, fs1) \<Rightarrow>
          (case PySet_Add fs1 s1 patient of
             (Inl e, fs2) \<Rightarrow> (Inl e, self\<lparr>agent_patients := d1\<rparr>, fs2)
           | (Inr s1', fs2) \<Rightarrow>
               (let self1 = self\<lparr>agent_patients := d1(agent \<mapsto> s1')\<rparr> in
                case PyDict_GetItemDefaultPySet_New fs2 (patient_agents self1) patient of
                  (Inl e, d2, fs3) \<Rightarrow> (Inl e, self1\<lparr>patient_agents := d2\<rparr>, fs3)
                | (Inr s2, d2, fs3) \<Rightarrow>
                    (case PySet_Add fs3 s2 agent of
                       (Inl e, fs4) \<Rightarrow> (Inl e, self1\<lparr>patient_agents := d2\<rparr>, fs4)
                     | (Inr s2', fs4) \<Rightarrow>
                         (Inr (), self1\<lparr>patient_agents := d2(patient \<mapsto> s2')\<rparr>, fs4)))))"

fun init_loop ::
  "faults \<Rightarrow> QBAFARelationsObject \<Rightarrow> pyobj list \<Rightarrow> (error + unit) \<times> QBAFARelationsObject" where
  "init_loop fs self [] = (Inr (), self)"
| "init_loop fs self (item # rest) =
     (case item of
        Tuple [agent, patient] \<Rightarrow>
          (case index_pair fs self agent patient of
             (Inl e, self', fs') \<Rightarrow> (Inl e, self')
           | (Inr u, self', fs') \<Rightarrow> init_loop fs' self' rest)
      | _ \<Rightarrow> (Inl TypeError, self))"

definition QBAFARelations_init ::
  "faults \<Rightarrow> QBAFARelationsObject \<Rightarrow> pyobj list \<Rightarrow> (string \<times> pyobj) list
     \<Rightarrow> (error + unit) \<times> QBAFARelationsObject" where
  "QBAFARelations_init fs self args kwds =
     (case PyArg_ParseTupleAndKeywords args kwds [''relations''] of
        Some [rels] \<Rightarrow>
          (case (case rels of PySet xs \<Rightarrow> Some xs | PyList xs \<Rightarrow> Some xs | _ \<Rightarrow> None) of
             None \<Rightarrow> (Inl TypeError, self)
           | Some items \<Rightarrow>
               (case PySet_New fs items of
                  (Inl e, fs1) \<Rightarrow> (Inl e, self)
                | (Inr rel, fs1) \<Rightarrow>
                    (case PyObject_GetIter fs1 of
                       (Inl e, fs2) \<Rightarrow> (Inl e, self\<lparr>relations := rel\<rparr>)
                     | (Inr u, fs2) \<Rightarrow> init_loop fs2 (self\<lparr>relations := rel\<rparr>) rel)))
      | _ \<Rightarrow> (Inl TypeError, self))"

definition QBAFARelations_sq_length :: "QBAFARelationsObject \<Rightarrow> int" where
  \<comment> \<open>\<open>QBAFARelations___len__\<close>, the \<open>sq_length\<close> slot.\<close>
  "QBAFARelations_sq_length self = PySet_Size (relations self)"

definition QBAFARelations_sq_contains ::
  "faults \<Rightarrow> QBAFARelationsObject \<Rightarrow> pyobj \<Rightarrow> (error + bool) \<times> QBAFARelationsObject" where
  \<comment> \<open>\<open>QBAFARelations___contains__\<close>, the \<open>sq_contains\<close> slot behind the \<open>in\<close> operator.\<close>
  "QBAFARelations_sq_contains fs self key =
     (case key of
        Tuple [a, p] \<Rightarrow>
          (case PySet_Contains fs (relations self) key of
             (Inl e, fs1) \<Rightarrow> (Inl e, self)
           | (Inr b, fs1) \<Rightarrow> (Inr b, self))
      | _ \<Rightarrow> (Inl TypeError, self))"

definition QBAFARelations_contains ::
  "faults \<Rightarrow> QBAFARelationsObject \<Rightarrow> pyobj list \<Rightarrow> (string \<times> pyobj) list
     \<Rightarrow> (error + bool) \<times> QBAFARelationsObject" where
  "QBAFARelations_contains fs self args kwds =
     (case PyArg_ParseTupleAndKeywords args kwds [''agent'', ''patient''] of
        Some [agent, patient] \<Rightarrow>
          (case PyTuple_Pack fs [agent, patient] of
             (Inl e, fs1) \<Rightarrow> (Inl e, self)
           | (Inr tuple, fs1) \<Rightarrow> QBAFARelations_sq_contains fs1 self tuple)
      | _ \<Rightarrow> (Inl TypeError, self))"

definition QBAFARelations_patients ::
  "faults \<Rightarrow> QBAFARelationsObject \<Rightarrow> pyobj list \<Rightarrow> (string \<times> pyobj) list
     \<Rightarrow> (error + pyobj list) \<times> QBAFARelationsObject" where
  "QBAFARelations_patients fs self args kwds =
     (case PyArg_ParseTupleAndKeywords args kwds [''agent''] of
        Some [agent] \<Rightarrow>
          (case PyDict_Contains fs (agent_patients self) agent of
             (Inl e, fs1) \<Rightarrow> (Inl e, self)
           | (Inr contains, fs1) \<Rightarrow>
               if contains then
                 (case agent_patients self agent of
                    None \<Rightarrow> (Inl Crash, self)
                  | Some s \<Rightarrow>
                      (case PyList_New fs1 of
                         (Inl e, fs2) \<Rightarrow> (Inl e, self)
                       | (Inr u, fs2) \<Rightarrow>
                           (case PyObject_GetIter fs2 of
                              (Inl e, fs3) \<Rightarrow> (Inl e, self)
                            | (Inr v, fs3) \<Rightarrow> (Inr s, self))))
               else
                 (case PyList_New fs1 of
                    (Inl e, fs2) \<Rightarrow> (Inl e, self)
                  | (Inr u, fs2) \<Rightarrow> (Inr [], self)))
      | _ \<Rightarrow> (Inl TypeError, self))"

definition QBAFARelations_agents ::
  "faults \<Rightarrow> QBAFARelationsObject \<Rightarrow> pyobj list \<Rightarrow> (string \<times> pyobj) list
     \<Rightarrow> (error + pyobj list) \<times> QBAFARelationsObject" where
  "QBAFARelations_agents fs self args kwds =
     (case PyArg_ParseTupleAndKeywords args kwds [''patient''] of
        Some [patient] \<Rightarrow>
          (case PyDict_Contains fs (patient_agents self) patient of
             (Inl e, fs1) \<Rightarrow> (Inl e, self)
           | (Inr contains, fs1) \<Rightarrow>
               if contains then
                 (case patient_agents self patient of
                    None \<Rightarrow> (Inl Crash, self)
                  | Some s \<Rightarrow>
                      (case PyList_New fs1 of
                         (Inl e, fs2) \<Rightarrow> (Inl e, self)
                       | (Inr u, fs2) \<Rightarrow>
                           (case PyObject_GetIter fs2 of
                              (Inl e, fs3) \<Rightarrow> (Inl e, self)
                            | (Inr v, fs3) \<Rightarrow> (Inr s, self))))
               else
                 (case PyList_New fs1 of
                    (Inl e, fs2) \<Rightarrow> (Inl e, self)
                  | (Inr u, fs2) \<Rightarrow> (Inr [], self)))
      | _ \<Rightarrow> (Inl TypeError, self))"

definition QBAFARelations_add ::
  "faults \<Rightarrow> QBAFARelationsObject \<Rightarrow> pyobj list \<Rightarrow> (string \<times> pyobj) list
     \<Rightarrow> (error + unit) \<times> QBAFARelationsObject" where
  "QBAFARelations_add fs self args kwds =
     (case PyArg_ParseTupleAndKeywords args kwds [''agent'', ''patient''] of
        Some [agent, patient] \<Rightarrow>
          (case PyTuple_Pack fs [agent, patient] of
             (Inl e, fs1) \<Rightarrow> (Inl e, self)
           | (Inr tuple, fs1) \<Rightarrow>
               (case PySet_Contains fs1 (relations self) tuple of
                  (Inl e, fs2) \<Rightarrow> (Inl e, self)
                | (Inr contains, fs2) \<Rightarrow>
                    if contains then (Inr (), self)
                    else
                      (case PySet_Add fs2 (relations self) tuple of
                         (Inl e, fs3) \<Rightarrow> (Inl e, self)
                       | (Inr rel, fs3) \<Rightarrow>
                           (case index_pair fs3 (self\<lparr>relations := rel\<rparr>) agent patient of
                              (r, self', fs4) \<Rightarrow> (r, self')))))
      | _ \<Rightarrow> (Inl TypeError, self))"

definition QBAFARelations_remove ::
  "faults \<Rightarrow> QBAFARelationsObject \<Rightarrow> pyobj list \<Rightarrow> (string \<times> pyobj) list
     \<Rightarrow> (error + unit) \<times> QBAFARelationsObject" where
  "QBAFARelations_remove fs self args kwds =
     (case PyArg_ParseTupleAndKeywords args kwds [''agent'', ''patient''] of
        Some [agent, patient] \<Rightarrow>
          (case PyTuple_Pack fs [agent, patient] of
             (Inl e, fs1) \<Rightarrow> (Inl e, self)
           | (Inr tuple, fs1) \<Rightarrow>
               (case PySet_Contains fs1 (relations self) tuple of
                  (Inl e, fs2) \<Rightarrow> (Inl e, self)
                | (Inr contains, fs2) \<Rightarrow>
                    if \<not> contains then (Inr (), self)
                    else
                      (case PySet_Discard fs2 (relations self) tuple of
                         (Inl e, fs3) \<Rightarrow> (Inl e, self)
                       | (Inr rel, fs3) \<Rightarrow>
                           (let self1 = self\<lparr>relations := rel\<rparr> in
                            case PyDict_GetItem fs3 (agent_patients self1) agent of
                              (None, fs4) \<Rightarrow> (Inl SystemError, self1)
                            | (Some s1, fs4) \<Rightarrow>
                                (case PySet_Discard fs4 s1 patient of
                                   (Inl e, fs5) \<Rightarrow> (Inl e, self1)
                                 | (Inr s1', fs5) \<Rightarrow>
                                     (let self2 = self1\<lparr>agent_patients := (agent_patients self1)(agent \<mapsto> s1')\<rparr> in
                                      case PyDict_GetItem fs5 (patient_agents self2) patient of
                                        (None, fs6) \<Rightarrow> (Inl SystemError, self2)
                                      | (Some s2, fs6) \<Rightarrow>
                                          (case PySet_Discard fs6 s2 agent of
                                             (Inl e, fs7) \<Rightarrow> (Inl e, self2)
                                           | (Inr s2', fs7) \<Rightarrow>
                                               (Inr (), self2\<lparr>patient_agents := (patient_agents self2)(patient \<mapsto> s2')\<rparr>))))))))
      | _ \<Rightarrow> (Inl TypeError, self))"

text \<open>
  \<open>QBAFARelations_copy\<close> calls \<open>QBAFARelations_new(NULL, NULL, NULL)\<close>: the type it
  passes is NULL. The argument array it then hands to \<open>QBAFARelations_init\<close> is read here
  as the one positional argument it holds, the set \<open>self->relations\<close>.
\<close>

definition QBAFARelations_copy ::
  "faults \<Rightarrow> QBAFARelationsObject \<Rightarrow> (error + QBAFARelationsObject) \<times> QBAFARelationsObject" where
  "QBAFARelations_copy fs self =
     (case QBAFARelations_new fs None of
        (Inl e, fs1) \<Rightarrow> (Inl e, self)
      | (Inr copy, fs1) \<Rightarrow>
          (case QBAFARelations_init fs1 copy [PySet (relations self)] [] of
             (Inl e, copy') \<Rightarrow> (Inl e, self)
           | (Inr u, copy') \<Rightarrow> (Inr copy', self)))"

subsection \<open>The index-consistency invariant\<close>

definition in_relations :: "QBAFARelationsObject \<Rightarrow> pyobj \<Rightarrow> pyobj \<Rightarrow> bool" where
  "in_relations s a p = (Tuple [a, p] \<in> set (relations s))"

definition in_agent_patients :: "QBAFARelationsObject \<Rightarrow> pyobj \<Rightarrow> pyobj \<Rightarrow> bool" where
  "in_agent_patients s a p = (case agent_patients s a of None \<Rightarrow> False | Some b \<Rightarrow> p \<in> set b)"

definition in_patient_agents :: "QBAFARelationsObject \<Rightarrow> pyobj \<Rightarrow> pyobj \<Rightarrow> bool" where
  "in_patient_agents s a p = (case patient_agents s p of None \<Rightarrow> False | Some b \<Rightarrow> a \<in> set b)"

definition index_consistent :: "QBAFARelationsObject \<Rightarrow> bool" where
  "index_consistent s =
     (\<forall>a p. in_relations s a p = in_agent_patients s a p
          \<and> in_agent_patients s a p = in_patient_agents s a p)"

text \<open>A sequence of calls of the two mutating methods, each with its own fault schedule.\<close>

datatype call =
    Add faults "pyobj list" "(string \<times> pyobj) list"
  | Remove faults "pyobj list" "(string \<times> pyobj) list"

fun call_method :: "call \<Rightarrow> QBAFARelationsObject \<Rightarrow> (error + unit) \<times> QBAFARelationsObject" where
  "call_method (Add fs args kwds) s = QBAFARelations_add fs s args kwds"
| "call_method (Remove fs args kwds) s = QBAFARelations_remove fs s args kwds"

fun run_calls :: "QBAFARelationsObject \<Rightarrow> call list \<Rightarrow> QBAFARelationsObject option" where
  "run_calls s [] = Some s"
| "run_calls s (c # cs) =
     (case call_method c s of
        (Inl e, s') \<Rightarrow> None
      | (Inr u, s') \<Rightarrow> run_calls s' cs)"

section \<open>The set utilities (qbaf_utils.c)\<close>

definition PySet_GET_SIZE :: "pyset \<Rightarrow> int" where
  "PySet_GET_SIZE s = int (length s)"

text \<open>
  \<open>PySet_IsDisjoint\<close> returns 1, 0 or -1: here \<open>Inr True\<close>, \<open>Inr False\<close> or the error.
  It iterates the smaller set and probes the other one.
\<close>

fun disjoint_loop :: "faults \<Rightarrow> pyobj list \<Rightarrow> pyset \<Rightarrow> error + bool" where
  "disjoint_loop fs [] set2 = Inr True"
| "disjoint_loop fs (item # rest) set2 =
     (case PySet_Contains fs set2 item of
        (Inl e, fs1) \<Rightarrow> Inl e
      | (Inr contains, fs1) \<Rightarrow> if contains then Inr False else disjoint_loop fs1 rest set2)"

definition PySet_IsDisjoint :: "faults \<Rightarrow> pyset \<Rightarrow> pyset \<Rightarrow> error + bool" where
  "PySet_IsDisjoint fs set1 set2 =
     (let (set1', set2') = (if PySet_GET_SIZE set1 > PySet_GET_SIZE set2 then (set2, set1) else (set1, set2))
      in case PyObject_GetIter fs of
           (Inl e, fs1) \<Rightarrow> Inl e
         | (Inr u, fs1) \<Rightarrow> disjoint_loop fs1 set1' set2')"

text \<open>
  \<open>PySet_Intersection\<close> does not test the result of its \<open>PySet_New(NULL)\<close>; that
  allocation is taken to succeed.
\<close>

fun intersection_loop :: "faults \<Rightarrow> pyobj list \<Rightarrow> pyset \<Rightarrow> pyset \<Rightarrow> error + pyset" where
  "intersection_loop fs [] set2 new = Inr new"
| "intersection_loop fs (item # rest) set2 new =
     (case PySet_Contains fs set2 item of
        (Inl e, fs1) \<Rightarrow> Inl e
      | (Inr contains, fs1) \<Rightarrow>
          if contains then
            (case PySet_Add fs1 new item of
               (Inl e, fs2) \<Rightarrow> Inl e
             | (Inr new', fs2) \<Rightarrow> intersection_loop fs2 rest set2 new')
          else intersection_loop fs1 rest set2 new)"

definition PySet_Intersection :: "faults \<Rightarrow> pyset \<Rightarrow> pyset \<Rightarrow> error + pyset" where
  "PySet_Intersection fs set1 set2 =
     (let (set1', set2') = (if PySet_GET_SIZE set1 > PySet_GET_SIZE set2 then (set2, set1) else (set1, set2))
      in case PyObject_GetIter fs of
           (Inl e, fs1) \<Rightarrow> Inl e
         | (Inr u, fs1) \<Rightarrow> intersection_loop fs1 set1' set2' [])"


subsection \<open>Subsets of a given size\<close>

text \<open>
  \<open>PySet_SubSets\<close> changes set objects through pointers: it pops from its working copy
  and adds an item to every set of the list the recursive call returned. The sets
  therefore live in a store, a list of set objects addressed by position; allocation
  appends, and nothing is ever removed (\<open>Py_DECREF\<close> is not modelled, a released object
  stays behind unreferenced). A Python list of sets is the list of their addresses.
  Allocations whose result the source does not test are taken to succeed.
\<close>

type_synonym heap = "pyset list"

text \<open>
  \<open>PySet_Pop\<close> removes an arbitrary member: here the first one in iteration order, the
  rest keeping its order; the theorems below hold for every order of the input's members.
\<close>

definition PySet_Pop :: "faults \<Rightarrow> pyset \<Rightarrow> (error + pyobj \<times> pyset) \<times> faults" where
  "PySet_Pop fs s = attempt fs (case s of [] \<Rightarrow> Inl KeyError | x # rest \<Rightarrow> Inr (x, rest))"

definition PyList_Append :: "faults \<Rightarrow> (error + unit) \<times> faults" where
  "PyList_Append fs = attempt fs (Inr ())"

text \<open>The loop of the branch \<open>size == 1\<close>: one new singleton set per member.\<close>

fun singletons_loop ::
  "pyobj list \<Rightarrow> nat list \<Rightarrow> heap \<Rightarrow> faults \<Rightarrow> (error + nat list) \<times> heap \<times> faults" where
  "singletons_loop [] list h fs = (Inr list, h, fs)"
| "singletons_loop (item # rest) list h fs =
     (case PySet_Add fs [] item of
        (Inl e, fs1) \<Rightarrow> (Inl e, h @ [[]], fs1)
      | (Inr new_set, fs1) \<Rightarrow> singletons_loop rest (list @ [length h]) (h @ [new_set]) fs1)"

text \<open>
  The inner loop of the general branch: \<open>item\<close> is added to every set of \<open>subset_list\<close>,
  in place, and the set is appended to \<open>list\<close>.
\<close>

fun extend_loop ::
  "nat list \<Rightarrow> pyobj \<Rightarrow> nat list \<Rightarrow> heap \<Rightarrow> faults \<Rightarrow> (error + nat list) \<times> heap \<times> faults" where
  "extend_loop [] item list h fs = (Inr list, h, fs)"
| "extend_loop (sub # rest) item list h fs =
     (if \<not> sub < length h then (Inl Crash, h, fs)
      else
        (case PySet_Add fs (h ! sub) item of
           (Inl e, fs1) \<Rightarrow> (Inl e, h, fs1)
         | (Inr s, fs1) \<Rightarrow>
             (case PyList_Append fs1 of
                (Inl e, fs2) \<Rightarrow> (Inl e, h[sub := s], fs2)
              | (Inr u, fs2) \<Rightarrow> extend_loop rest item (list @ [sub]) (h[sub := s]) fs2)))"

text \<open>
  \<open>size\<close> is a \<open>Py_ssize_t\<close>, a signed 64-bit integer: an \<open>int\<close> between
  \<open>PY_SSIZE_T_MIN\<close> and \<open>PY_SSIZE_T_MAX\<close>. The only arithmetic on it is the \<open>size-1\<close> of
  the recursive call, which leaves that range at \<open>PY_SSIZE_T_MIN\<close> alone; there the
  subtraction wraps around to \<open>PY_SSIZE_T_MAX\<close>. \<open>ssize_wrap\<close> is the wrap-around of
  two's complement in general.
\<close>

definition PY_SSIZE_T_MIN :: int where
  "PY_SSIZE_T_MIN = - (2 ^ 63)"

definition PY_SSIZE_T_MAX :: int where
  "PY_SSIZE_T_MAX = 2 ^ 63 - 1"

definition ssize_wrap :: "int \<Rightarrow> int" where
  "ssize_wrap x = (x + 2 ^ 63) mod 2 ^ 64 - 2 ^ 63"

definition size_minus_1 :: "int \<Rightarrow> int" where
  "size_minus_1 size1 = (if size1 = PY_SSIZE_T_MIN then PY_SSIZE_T_MAX else size1 - 1)"

text \<open>
  The function itself. \<open>Entry set1 size1\<close> is a call \<open>PySet_SubSets(set, size)\<close> on the set at address \<open>set1\<close>;
  \<open>Loop myset size1 list\<close> is the head of its \<open>while\<close> loop with the working copy at
  address \<open>myset\<close> and the result list built so far. The branch for \<open>size <= 0\<close> builds a
  list of empty sets and does not return it: execution goes on with the later branches.
  The result is \<open>None\<close> when the recursion does not end.
\<close>

datatype frame = Entry nat int | Loop nat int "nat list"

partial_function (option) PySet_SubSets_run ::
  "frame \<Rightarrow> heap \<Rightarrow> faults \<Rightarrow> ((error + nat list) \<times> heap \<times> faults) option" where
  "PySet_SubSets_run fr h fs =
     (case fr of
        Entry set1 size1 \<Rightarrow>
          if \<not> set1 < length h then Some (Inl Crash, h, fs)
          else if PySet_GET_SIZE (h ! set1) = 0 then Some (Inr [length h], h @ [[]], fs)
          else
            (let h0 = (if size1 \<le> 0 then h @ replicate (length (h ! set1)) [] else h) in
             if size1 = 1 then
               (case PyList_New fs of
                  (Inl e, fs1) \<Rightarrow> Some (Inl e, h0, fs1)
                | (Inr u, fs1) \<Rightarrow>
                    (case PyObject_GetIter fs1 of
                       (Inl e, fs2) \<Rightarrow> Some (Inl e, h0, fs2)
                     | (Inr v, fs2) \<Rightarrow> Some (singletons_loop (h0 ! set1) [] h0 fs2)))
             else
               (case PyList_New fs of
                  (Inl e, fs1) \<Rightarrow> Some (Inl e, h0, fs1)
                | (Inr u, fs1) \<Rightarrow>
                    (case PySet_New fs1 (h0 ! set1) of
                       (Inl e, fs2) \<Rightarrow> Some (Inl e, h0, fs2)
                     | (Inr myset, fs2) \<Rightarrow>
                         PySet_SubSets_run (Loop (length h0) size1 []) (h0 @ [myset]) fs2)))
      | Loop myset size1 list \<Rightarrow>
          if \<not> myset < length h then Some (Inl Crash, h, fs)
          else if PySet_GET_SIZE (h ! myset) > 0 then
            (case PySet_Pop fs (h ! myset) of
               (Inl e, fs1) \<Rightarrow> Some (Inl e, h, fs1)
             | (Inr (item, rest), fs1) \<Rightarrow>
                 Option.bind (PySet_SubSets_run (Entry myset (size_minus_1 size1)) (h[myset := rest]) fs1)
                   (\<lambda>r. case r of
                      (Inl e, h2, fs2) \<Rightarrow> Some (Inl e, h2, fs2)
                    | (Inr subset_list, h2, fs2) \<Rightarrow>
                        (case PyObject_GetIter fs2 of
                           (Inl e, fs3) \<Rightarrow> Some (Inl e, h2, fs3)
                         | (Inr u, fs3) \<Rightarrow>
                             (case extend_loop subset_list item list h2 fs3 of
                                (Inl e, h3, fs4) \<Rightarrow> Some (Inl e, h3, fs4)
                              | (Inr list', h3, fs4) \<Rightarrow>
                                  if PySet_GET_SIZE (h3 ! myset) < size1 then Some (Inr list', h3, fs4)
                                  else PySet_SubSets_run (Loop myset size1 list') h3 fs4))))
          else Some (Inr list, h, fs))"

definition PySet_SubSets ::
  "heap \<Rightarrow> faults \<Rightarrow> nat \<Rightarrow> int \<Rightarrow> ((error + nat list) \<times> heap \<times> faults) option" where
  "PySet_SubSets h fs set1 size1 = PySet_SubSets_run (Entry set1 size1) h fs"

text \<open>
  The member lists the enumeration produces, as a function of the members of the input
  in iteration order: the same recursion, with the same \<open>size-1\<close>, without the store and
  without failures.
\<close>

function subsets_members :: "pyobj list \<Rightarrow> int \<Rightarrow> pyobj list list"
  and loop_members :: "pyobj list \<Rightarrow> int \<Rightarrow> pyobj list list \<Rightarrow> pyobj list list" where
  "subsets_members xs k =
     (if xs = [] then [[]] else if k = 1 then map (\<lambda>x. [x]) xs else loop_members xs k [])"
| "loop_members [] k acc = acc"
| "loop_members (x # rest) k acc =
     (if int (length rest) < k then acc @ map (List.insert x) (subsets_members rest (size_minus_1 k))
      else loop_members rest k (acc @ map (List.insert x) (subsets_members rest (size_minus_1 k))))"
  by pat_completeness auto
termination
  by (relation "measure (\<lambda>v. case v of Inl (xs, k) \<Rightarrow> 2 * length xs + 1 | Inr (xs, k, acc) \<Rightarrow> 2 * length xs)") auto

declare subsets_members.simps [simp del]

declare PySet_SubSets_run.simps [code]

text \<open>
  What a run of a frame leaves behind, used to reason about the recursion: the store only
  grows, every set that existed before is unchanged (but the working copy of a loop), the
  sets of the result are new, and their members are those \<open>subsets_members\<close> computes.
\<close>

definition frame_measure :: "frame \<Rightarrow> heap \<Rightarrow> nat" where
  "frame_measure fr h =
     (case fr of Entry s k \<Rightarrow> 2 * length (h ! s) + 1 | Loop m k l \<Rightarrow> 2 * length (h ! m))"

definition entry_post ::
  "heap \<Rightarrow> nat \<Rightarrow> int \<Rightarrow> error + nat list \<Rightarrow> heap \<Rightarrow> bool" where
  "entry_post h s k r h' =
     (length h \<le> length h' \<and> (\<forall>a<length h. h' ! a = h ! a)
    \<and> (\<forall>l. r = Inr l \<longrightarrow>
          (\<forall>a\<in>set l. length h \<le> a \<and> a < length h')
        \<and> (distinct (h ! s) \<longrightarrow> map ((!) h') l = subsets_members (h ! s) k)))"

definition loop_post ::
  "heap \<Rightarrow> nat \<Rightarrow> int \<Rightarrow> nat list \<Rightarrow> error + nat list \<Rightarrow> heap \<Rightarrow> bool" where
  "loop_post h m k l r h' =
     (length h \<le> length h' \<and> (\<forall>a<length h. a \<noteq> m \<longrightarrow> h' ! a = h ! a)
    \<and> (\<forall>l'. r = Inr l' \<longrightarrow>
          (\<forall>a\<in>set l'. a \<in> set l \<or> (length h \<le> a \<and> a < length h'))
        \<and> (distinct (h ! m) \<and> (\<forall>a\<in>set l. a < length h \<and> a \<noteq> m) \<longrightarrow>
             map ((!) h') l' = loop_members (h ! m) k (map ((!) h) l))))"


lemma attempt_Inr: "attempt fs r = (Inr v, fs') \<Longrightarrow> r = Inr v"
  by (auto simp: attempt_def split: list.splits option.splits)

lemma attempt_Nil: "attempt [] r = (r, [])"
  by (simp add: attempt_def)

lemma PySet_Contains_Inr:
  "PySet_Contains fs s k = (Inr b, fs') \<Longrightarrow> hashable k \<and> b = (k \<in> set s)"
  by (auto simp: PySet_Contains_def dest!: attempt_Inr split: if_splits)

lemma PySet_Add_Inr:
  "PySet_Add fs s k = (Inr s', fs') \<Longrightarrow> hashable k \<and> s' = List.insert k s"
  by (auto simp: PySet_Add_def dest!: attempt_Inr split: if_splits)

lemma PySet_Discard_Inr:
  "PySet_Discard fs s k = (Inr s', fs') \<Longrightarrow> hashable k \<and> s' = removeAll k s"
  by (auto simp: PySet_Discard_def dest!: attempt_Inr split: if_splits)

lemma PySet_New_Inr:
  "PySet_New fs xs = (Inr s, fs') \<Longrightarrow> (\<forall>x\<in>set xs. hashable x) \<and> s = remdups xs"
  by (auto simp: PySet_New_def dest!: attempt_Inr split: if_splits)

lemma PyTuple_Pack_Inr:
  "PyTuple_Pack fs xs = (Inr t, fs') \<Longrightarrow> t = Tuple xs"
  by (auto simp: PyTuple_Pack_def dest!: attempt_Inr)

lemma PyDict_GetItem_Some:
  "PyDict_GetItem fs d k = (Some s, fs') \<Longrightarrow> d k = Some s"
  by (auto simp: PyDict_GetItem_def dest!: attempt_Inr split: if_splits prod.splits sum.splits)

lemma GetItemDefault_Inr:
  "PyDict_GetItemDefaultPySet_New fs d k = (Inr s, d', fs') \<Longrightarrow>
     hashable k \<and> s = (case d k of None \<Rightarrow> [] | Some b \<Rightarrow> b) \<and> d' = d(k \<mapsto> s)"
  unfolding PyDict_GetItemDefaultPySet_New_def PyDict_Contains_def PySet_New_def
    PyDict_SetItem_def PyDict_GetItemWithError_def
  by (auto dest!: attempt_Inr split: if_splits prod.splits sum.splits option.splits)

lemma GetItemDefault_Inl:
  "PyDict_GetItemDefaultPySet_New fs d k = (Inl e, d', fs') \<Longrightarrow> d' = d"
  unfolding PyDict_GetItemDefaultPySet_New_def
  by (auto split: if_splits prod.splits sum.splits)

lemma index_pair_Inr:
  assumes "index_pair fs s a p = (Inr u, s', fs')"
  shows "hashable a \<and> hashable p \<and> relations s' = relations s
       \<and> agent_patients s' = (agent_patients s)(a \<mapsto> List.insert p (case agent_patients s a of None \<Rightarrow> [] | Some b \<Rightarrow> b))
       \<and> patient_agents s' = (patient_agents s)(p \<mapsto> List.insert a (case patient_agents s p of None \<Rightarrow> [] | Some b \<Rightarrow> b))"
  using assms unfolding index_pair_def Let_def
  by (auto dest!: GetItemDefault_Inr PySet_Add_Inr split: prod.splits sum.splits)

lemma index_pair_Inl:
  assumes "index_pair fs s a p = (Inl e, s', fs')"
  shows "relations s' = relations s
       \<and> (\<forall>x y. in_patient_agents s' x y = in_patient_agents s x y)
       \<and> (\<forall>x y. in_agent_patients s' x y \<longrightarrow> in_agent_patients s x y \<or> (x = a \<and> y = p))"
  using assms unfolding index_pair_def Let_def in_patient_agents_def in_agent_patients_def
  by (auto dest!: GetItemDefault_Inr GetItemDefault_Inl PySet_Add_Inr split: prod.splits sum.splits option.splits if_splits)


lemma new_Inr:
  "QBAFARelations_new fs (Some t) = (Inr s, fs') \<Longrightarrow>
     s = \<lparr>relations = [], agent_patients = Map.empty, patient_agents = Map.empty\<rparr>"
  unfolding QBAFARelations_new_def PyDict_New_def
  by (auto dest!: attempt_Inr PySet_New_Inr split: prod.splits sum.splits)

lemma index_pair_Inr_in:
  assumes "index_pair fs s a p = (Inr u, s', fs')"
  shows "relations s' = relations s"
    and "in_agent_patients s' x y = (in_agent_patients s x y \<or> (x = a \<and> y = p))"
    and "in_patient_agents s' x y = (in_patient_agents s x y \<or> (x = a \<and> y = p))"
  using index_pair_Inr[OF assms]
  by (auto simp: in_agent_patients_def in_patient_agents_def split: option.splits if_splits)

lemma init_loop_Inr:
  "init_loop fs s items = (Inr u, s') \<Longrightarrow>
     relations s' = relations s
   \<and> (\<forall>x\<in>set items. \<exists>a p. x = Tuple [a, p])
   \<and> (\<forall>a p. in_agent_patients s' a p = (in_agent_patients s a p \<or> Tuple [a, p] \<in> set items))
   \<and> (\<forall>a p. in_patient_agents s' a p = (in_patient_agents s a p \<or> Tuple [a, p] \<in> set items))"
proof (induction items arbitrary: fs s)
  case Nil
  then show ?case by simp
next
  case (Cons item rest)
  from Cons.prems obtain a p where item: "item = Tuple [a, p]"
    by (auto split: pyobj.splits list.splits)
  from Cons.prems item obtain s1 fs1 where
    step: "index_pair fs s a p = (Inr (), s1, fs1)" and rest: "init_loop fs1 s1 rest = (Inr u, s')"
    by (auto split: prod.splits sum.splits)
  note ih = Cons.IH[OF rest]
  note st = index_pair_Inr_in[OF step]
  show ?case using ih st item by auto
qed

lemma step_InrE:
  assumes "(case x of (Inl e, fs) \<Rightarrow> (Inl e, k e fs) | (Inr v, fs) \<Rightarrow> h v fs) = (Inr u, s')"
  obtains v fs where "x = (Inr v, fs)" and "h v fs = (Inr u, s')"
  using assms by (cases x) (auto split: sum.splits)

lemma lookup_InrE:
  assumes "(case x of (None, fs) \<Rightarrow> (Inl e, k fs) | (Some v, fs) \<Rightarrow> h v fs) = (Inr u, s')"
  obtains v fs where "x = (Some v, fs)" and "h v fs = (Inr u, s')"
  using assms by (cases x) (auto split: option.splits)

lemma drop_faultsE:
  assumes "(case x of (r, s, fs) \<Rightarrow> (r, s)) = (a, b)"
  obtains fs where "x = (a, b, fs)"
  using assms by (cases x) auto

lemma parse_positional:
  "length args = length kwlist \<Longrightarrow> PyArg_ParseTupleAndKeywords args [] kwlist = Some args"
  by (simp add: PyArg_ParseTupleAndKeywords_def)

lemma parse_length:
  "PyArg_ParseTupleAndKeywords args kwds kwlist = Some xs \<Longrightarrow> length xs = length kwlist"
  by (auto simp: PyArg_ParseTupleAndKeywords_def split: if_splits)

lemma parse_wrong_count:
  "length args \<noteq> length kwlist \<Longrightarrow> PyArg_ParseTupleAndKeywords args [] kwlist = None"
  by (auto simp: PyArg_ParseTupleAndKeywords_def dest: in_set_dropD)

lemma init_Inr:
  assumes "QBAFARelations_init fs s args kwds = (Inr u, S)"
  shows "\<exists>coll items. PyArg_ParseTupleAndKeywords args kwds [''relations''] = Some [coll]
       \<and> (coll = PySet items \<or> coll = PyList items)
       \<and> relations S = remdups items
       \<and> (\<forall>x\<in>set items. hashable x \<and> (\<exists>a p. x = Tuple [a, p]))
       \<and> (\<forall>a p. in_agent_patients S a p = (in_agent_patients s a p \<or> Tuple [a, p] \<in> set items))
       \<and> (\<forall>a p. in_patient_agents S a p = (in_patient_agents s a p \<or> Tuple [a, p] \<in> set items))"
proof -
  from assms obtain coll where parse: "PyArg_ParseTupleAndKeywords args kwds [''relations''] = Some [coll]"
    unfolding QBAFARelations_init_def by (auto split: option.splits list.splits)
  from assms parse obtain items fs2 where
    coll: "coll = PySet items \<or> coll = PyList items"
    and hash: "\<forall>x\<in>set items. hashable x"
    and loop: "init_loop fs2 (s\<lparr>relations := remdups items\<rparr>) (remdups items) = (Inr u, S)"
    unfolding QBAFARelations_init_def
    by (auto elim!: step_InrE dest!: PySet_New_Inr split: pyobj.splits option.splits)
  from init_loop_Inr[OF loop] coll parse hash show ?thesis
    by (auto simp: in_agent_patients_def in_patient_agents_def)
qed

lemma add_Inr:
  assumes "QBAFARelations_add fs s args kwds = (Inr u, s')"
  shows "\<exists>a p. PyArg_ParseTupleAndKeywords args kwds [''agent'', ''patient''] = Some [a, p]
      \<and> (if in_relations s a p then s' = s
          else (\<forall>x y. in_relations s' x y = (in_relations s x y \<or> (x = a \<and> y = p)))
             \<and> (\<forall>x y. in_agent_patients s' x y = (in_agent_patients s x y \<or> (x = a \<and> y = p)))
             \<and> (\<forall>x y. in_patient_agents s' x y = (in_patient_agents s x y \<or> (x = a \<and> y = p))))"
proof -
  from assms obtain a p where parse: "PyArg_ParseTupleAndKeywords args kwds [''agent'', ''patient''] = Some [a, p]"
    unfolding QBAFARelations_add_def by (auto split: option.splits list.splits)
  show ?thesis
  proof (cases "in_relations s a p")
    case True
    with assms parse have "s' = s"
      unfolding QBAFARelations_add_def in_relations_def
      by (auto elim!: step_InrE dest!: PyTuple_Pack_Inr PySet_Contains_Inr split: if_splits)
    with True parse show ?thesis by auto
  next
    case False
    with assms parse obtain fs3 fs4 where
      ip: "index_pair fs3 (s\<lparr>relations := List.insert (Tuple [a, p]) (relations s)\<rparr>) a p = (Inr u, s', fs4)"
      unfolding QBAFARelations_add_def in_relations_def
      by (auto elim!: step_InrE drop_faultsE dest!: PyTuple_Pack_Inr PySet_Contains_Inr PySet_Add_Inr
               split: if_splits)
    from index_pair_Inr_in[OF ip] False parse show ?thesis
      by (auto simp: in_relations_def in_agent_patients_def in_patient_agents_def)
  qed
qed

lemma add_preserves:
  assumes "index_consistent s" and "QBAFARelations_add fs s args kwds = (Inr u, s')"
  shows "index_consistent s'"
proof -
  from add_Inr[OF assms(2)] obtain a p where
    r: "if in_relations s a p then s' = s
        else (\<forall>x y. in_relations s' x y = (in_relations s x y \<or> (x = a \<and> y = p)))
           \<and> (\<forall>x y. in_agent_patients s' x y = (in_agent_patients s x y \<or> (x = a \<and> y = p)))
           \<and> (\<forall>x y. in_patient_agents s' x y = (in_patient_agents s x y \<or> (x = a \<and> y = p)))"
    by blast
  show ?thesis
  proof (cases "in_relations s a p")
    case True
    with r assms(1) show ?thesis by simp
  next
    case False
    with r assms(1) show ?thesis unfolding index_consistent_def by simp
  qed
qed

lemma remove_Inr:
  assumes "QBAFARelations_remove fs s args kwds = (Inr u, s')"
  shows "\<exists>a p. PyArg_ParseTupleAndKeywords args kwds [''agent'', ''patient''] = Some [a, p]
      \<and> (if \<not> in_relations s a p then s' = s
          else (\<exists>s1 s2. agent_patients s a = Some s1 \<and> patient_agents s p = Some s2
             \<and> s' = s\<lparr>relations := removeAll (Tuple [a, p]) (relations s),
                       agent_patients := (agent_patients s)(a \<mapsto> removeAll p s1),
                       patient_agents := (patient_agents s)(p \<mapsto> removeAll a s2)\<rparr>))"
proof -
  from assms obtain a p where parse: "PyArg_ParseTupleAndKeywords args kwds [''agent'', ''patient''] = Some [a, p]"
    unfolding QBAFARelations_remove_def by (auto split: option.splits list.splits)
  show ?thesis
  proof (cases "in_relations s a p")
    case False
    with assms parse have "s' = s"
      unfolding QBAFARelations_remove_def in_relations_def
      by (auto elim!: step_InrE dest!: PyTuple_Pack_Inr PySet_Contains_Inr split: if_splits)
    with False parse show ?thesis by auto
  next
    case True
    with assms parse obtain s1 s2 where
      "agent_patients s a = Some s1" and "patient_agents s p = Some s2"
      and "s' = s\<lparr>relations := removeAll (Tuple [a, p]) (relations s),
                    agent_patients := (agent_patients s)(a \<mapsto> removeAll p s1),
                    patient_agents := (patient_agents s)(p \<mapsto> removeAll a s2)\<rparr>"
      unfolding QBAFARelations_remove_def in_relations_def Let_def
      by (auto elim!: step_InrE lookup_InrE
               dest!: PyTuple_Pack_Inr PySet_Contains_Inr PySet_Discard_Inr PyDict_GetItem_Some
               split: if_splits)
    with True parse show ?thesis by auto
  qed
qed

lemma remove_preserves:
  assumes "index_consistent s" and "QBAFARelations_remove fs s args kwds = (Inr u, s')"
  shows "index_consistent s'"
proof -
  from remove_Inr[OF assms(2)] obtain a p where
    r: "if \<not> in_relations s a p then s' = s
        else (\<exists>s1 s2. agent_patients s a = Some s1 \<and> patient_agents s p = Some s2
           \<and> s' = s\<lparr>relations := removeAll (Tuple [a, p]) (relations s),
                     agent_patients := (agent_patients s)(a \<mapsto> removeAll p s1),
                     patient_agents := (patient_agents s)(p \<mapsto> removeAll a s2)\<rparr>)"
    by blast
  show ?thesis
  proof (cases "in_relations s a p")
    case False
    with r assms(1) show ?thesis by simp
  next
    case True
    with r obtain s1 s2 where s1: "agent_patients s a = Some s1" and s2: "patient_agents s p = Some s2"
      and s': "s' = s\<lparr>relations := removeAll (Tuple [a, p]) (relations s),
                     agent_patients := (agent_patients s)(a \<mapsto> removeAll p s1),
                     patient_agents := (patient_agents s)(p \<mapsto> removeAll a s2)\<rparr>"
      by auto
    have rel: "in_relations s' x y = (in_relations s x y \<and> \<not> (x = a \<and> y = p))" for x y
      using s' by (auto simp: in_relations_def)
    have ap: "in_agent_patients s' x y = (in_agent_patients s x y \<and> \<not> (x = a \<and> y = p))" for x y
      using s' s1 by (auto simp: in_agent_patients_def split: option.splits)
    have pa: "in_patient_agents s' x y = (in_patient_agents s x y \<and> \<not> (x = a \<and> y = p))" for x y
      using s' s2 by (auto simp: in_patient_agents_def split: option.splits)
    from assms(1) show ?thesis unfolding index_consistent_def rel ap pa by simp
  qed
qed

lemma run_calls_preserves:
  "index_consistent s \<Longrightarrow> run_calls s calls = Some s' \<Longrightarrow> index_consistent s'"
proof (induction calls arbitrary: s)
  case Nil
  then show ?case by simp
next
  case (Cons c cs)
  from Cons.prems(2) obtain s1 where step: "call_method c s = (Inr (), s1)" and rest: "run_calls s1 cs = Some s'"
    by (auto split: prod.splits sum.splits)
  have "index_consistent s1"
    using step Cons.prems(1) by (cases c) (auto intro: add_preserves remove_preserves)
  from Cons.IH[OF this rest] show ?case .
qed

lemma run_calls_prefix:
  "run_calls s calls = Some s' \<Longrightarrow> \<exists>t. run_calls s (take n calls) = Some t"
proof (induction calls arbitrary: s n)
  case Nil
  then show ?case by simp
next
  case (Cons c cs)
  show ?case
  proof (cases n)
    case 0
    then show ?thesis by simp
  next
    case (Suc m)
    from Cons.prems obtain s1 where step: "call_method c s = (Inr (), s1)" and rest: "run_calls s1 cs = Some s'"
      by (auto split: prod.splits sum.splits)
    from Cons.IH[OF rest, of m] step Suc show ?thesis by auto
  qed
qed

lemma step_InlE:
  assumes "(case x of (Inl e, fs) \<Rightarrow> (Inl e, k) | (Inr v, fs) \<Rightarrow> h v fs) = (Inl e', s')"
  obtains "s' = k" | v fs where "x = (Inr v, fs)" and "h v fs = (Inl e', s')"
  using assms by (cases x) (auto split: sum.splits)

lemma add_Inl:
  assumes "QBAFARelations_add fs s args kwds = (Inl e, s')"
      and "PyArg_ParseTupleAndKeywords args kwds [''agent'', ''patient''] = Some [a, p]"
  shows "s' = s \<or> (\<exists>fs3 fs4. index_pair fs3 (s\<lparr>relations := List.insert (Tuple [a, p]) (relations s)\<rparr>) a p = (Inl e, s', fs4))"
  using assms unfolding QBAFARelations_add_def
  by (auto elim!: step_InlE drop_faultsE dest!: PyTuple_Pack_Inr PySet_Add_Inr split: if_splits)

lemma index_pair_no_faults:
  assumes "hashable a" and "hashable p"
  shows "\<exists>s'. index_pair [] s a p = (Inr (), s', [])"
  using assms
  by (simp add: index_pair_def PyDict_GetItemDefaultPySet_New_def PyDict_Contains_def PySet_New_def
        PyDict_SetItem_def PyDict_GetItemWithError_def PySet_Add_def attempt_Nil Let_def
      split: option.splits)

lemma init_loop_no_faults:
  "\<forall>x\<in>set items. \<exists>a p. x = Tuple [a, p] \<and> hashable a \<and> hashable p \<Longrightarrow>
     \<exists>s'. init_loop [] s items = (Inr (), s')"
proof (induction items arbitrary: s)
  case Nil
  then show ?case by simp
next
  case (Cons item rest)
  then obtain a p where item: "item = Tuple [a, p]" and h: "hashable a" "hashable p"
    by auto
  from index_pair_no_faults[OF h] obtain s1 where s1: "index_pair [] s a p = (Inr (), s1, [])"
    by blast
  from Cons.IH[of s1] Cons.prems obtain s' where "init_loop [] s1 rest = (Inr (), s')"
    by auto
  with item s1 show ?case by simp
qed

lemma init_no_faults:
  assumes "coll = PyList P \<or> coll = PySet P"
      and "\<forall>x\<in>set P. \<exists>a p. x = Tuple [a, p] \<and> hashable a \<and> hashable p"
  shows "\<exists>S. QBAFARelations_init [] s [coll] [] = (Inr (), S)"
proof -
  have hash: "\<forall>x\<in>set P. hashable x" using assms(2) by auto
  have "\<forall>x\<in>set (remdups P). \<exists>a p. x = Tuple [a, p] \<and> hashable a \<and> hashable p"
    using assms(2) by simp
  from init_loop_no_faults[OF this] obtain S where
    "init_loop [] (s\<lparr>relations := remdups P\<rparr>) (remdups P) = (Inr (), S)" by blast
  with assms(1) hash show ?thesis
    by (auto simp: QBAFARelations_init_def PyArg_ParseTupleAndKeywords_def PySet_New_def
          PyObject_GetIter_def attempt_Nil)
qed

lemma contains_no_faults:
  assumes "hashable a" and "hashable p"
  shows "QBAFARelations_contains [] s [a, p] [] = (Inr (in_relations s a p), s)"
  using assms
  by (simp add: QBAFARelations_contains_def QBAFARelations_sq_contains_def PyTuple_Pack_def
        PySet_Contains_def attempt_Nil PyArg_ParseTupleAndKeywords_def in_relations_def)

lemma remove_dom_agent_patients:
  "dom (agent_patients (snd (QBAFARelations_remove fs s args kwds))) = dom (agent_patients s)"
  by (auto simp: QBAFARelations_remove_def Let_def dest!: PyDict_GetItem_Some
      split: option.split list.split prod.split sum.split)

lemma remove_dom_patient_agents:
  "dom (patient_agents (snd (QBAFARelations_remove fs s args kwds))) = dom (patient_agents s)"
  by (auto simp: QBAFARelations_remove_def Let_def dest!: PyDict_GetItem_Some
      split: option.split list.split prod.split sum.split)

lemma contains_frame: "snd (QBAFARelations_contains fs s args kwds) = s"
  by (simp add: QBAFARelations_contains_def QBAFARelations_sq_contains_def
      split: option.split list.split prod.split sum.split pyobj.split)

lemma sq_contains_frame: "snd (QBAFARelations_sq_contains fs s key) = s"
  by (simp add: QBAFARelations_sq_contains_def
      split: option.split list.split prod.split sum.split pyobj.split)

lemma patients_frame: "snd (QBAFARelations_patients fs s args kwds) = s"
  by (simp add: QBAFARelations_patients_def
      split: option.split list.split prod.split sum.split)

lemma agents_frame: "snd (QBAFARelations_agents fs s args kwds) = s"
  by (simp add: QBAFARelations_agents_def
      split: option.split list.split prod.split sum.split)

section \<open>Claims about the relation store\<close>

lemmas eval_defs =
  attempt_def PyTuple_Pack_def PySet_New_def PySet_Contains_def PySet_Add_def PySet_Discard_def
  PySet_Size_def PyDict_New_def PyDict_Contains_def PyDict_SetItem_def PyDict_GetItemWithError_def
  PyDict_GetItem_def PyObject_GetIter_def PyList_New_def PyArg_ParseTupleAndKeywords_def
  QBAFARelations_new_def PyDict_GetItemDefaultPySet_New_def index_pair_def QBAFARelations_init_def
  QBAFARelations_sq_length_def QBAFARelations_sq_contains_def QBAFARelations_contains_def
  QBAFARelations_add_def QBAFARelations_remove_def QBAFARelations_copy_def
  in_relations_def in_agent_patients_def in_patient_agents_def Let_def

text \<open>
  C1, as amended. \<open>add(agent, patient)\<close> of a pair recorded in none of the three structures:
  when the call returns success, the relations set, the agent's bucket and the patient's
  bucket all hold the pair. When it returns an error, either the store is exactly as it
  was, or (the failure came after the insertion into the relations set, and nothing is
  rolled back) the relations set holds the pair while the patient's bucket does not.
\<close>

theorem add_outcomes:
  assumes "\<not> in_relations self agent patient"
      and "\<not> in_agent_patients self agent patient"
      and "\<not> in_patient_agents self agent patient"
      and "QBAFARelations_add fs self [agent, patient] [] = (r, self')"
  shows "(r = Inr () \<longrightarrow> in_relations self' agent patient
                       \<and> in_agent_patients self' agent patient
                       \<and> in_patient_agents self' agent patient)
       \<and> (r \<noteq> Inr () \<longrightarrow> self' = self
                       \<or> (in_relations self' agent patient \<and> \<not> in_patient_agents self' agent patient))"
proof -
  have parse: "PyArg_ParseTupleAndKeywords [agent, patient] [] [''agent'', ''patient''] = Some [agent, patient]"
    by (simp add: parse_positional)
  show ?thesis
  proof (cases r)
    case (Inr u)
    with assms(4) have ok: "QBAFARelations_add fs self [agent, patient] [] = (Inr u, self')" by simp
    from add_Inr[OF ok] parse assms(1) Inr show ?thesis by auto
  next
    case (Inl e)
    with assms(4) have bad: "QBAFARelations_add fs self [agent, patient] [] = (Inl e, self')" by simp
    from add_Inl[OF bad parse] show ?thesis
    proof
      assume "self' = self"
      with Inl show ?thesis by simp
    next
      assume "\<exists>fs3 fs4. index_pair fs3 (self\<lparr>relations := List.insert (Tuple [agent, patient]) (relations self)\<rparr>)
                 agent patient = (Inl e, self', fs4)"
      then obtain fs3 fs4 where
        ip: "index_pair fs3 (self\<lparr>relations := List.insert (Tuple [agent, patient]) (relations self)\<rparr>)
               agent patient = (Inl e, self', fs4)" by blast
      from index_pair_Inl[OF ip] assms(3) Inl show ?thesis
        by (auto simp: in_relations_def in_patient_agents_def)
    qed
  qed
qed

theorem add_outcomes_witness:
  "\<exists>s'. QBAFARelations_add [] \<lparr>relations = [], agent_patients = Map.empty, patient_agents = Map.empty\<rparr>
            [Obj 0, Obj 1] [] = (Inr (), s')
      \<and> in_relations s' (Obj 0) (Obj 1) \<and> in_agent_patients s' (Obj 0) (Obj 1)
      \<and> in_patient_agents s' (Obj 0) (Obj 1)"
proof -
  let ?s = "\<lparr>relations = [], agent_patients = Map.empty, patient_agents = Map.empty\<rparr>"
  have ok: "fst (QBAFARelations_add [] ?s [Obj 0, Obj 1] []) = Inr ()"
    by (simp add: eval_defs)
  then obtain s' where run: "QBAFARelations_add [] ?s [Obj 0, Obj 1] [] = (Inr (), s')"
    by (cases "QBAFARelations_add [] ?s [Obj 0, Obj 1] []") auto
  have pre: "\<not> in_relations ?s (Obj 0) (Obj 1)" "\<not> in_agent_patients ?s (Obj 0) (Obj 1)"
    "\<not> in_patient_agents ?s (Obj 0) (Obj 1)"
    by (simp_all add: in_relations_def in_agent_patients_def in_patient_agents_def)
  from add_outcomes[OF pre run] run show ?thesis by blast
qed

text \<open>
  C1, as stated, fails: with the fifth tested call failing (the \<open>PySet_New\<close> that creates
  the agent's bucket), \<open>add\<close> on the empty store returns the error after the pair went
  into the relations set, and neither bucket records it.
\<close>

theorem add_not_atomic_counterexample:
  "QBAFARelations_add [None, None, None, None, Some MemoryError]
      \<lparr>relations = [], agent_patients = Map.empty, patient_agents = Map.empty\<rparr> [Obj 0, Obj 1] []
     = (Inl MemoryError,
        \<lparr>relations = [Tuple [Obj 0, Obj 1]], agent_patients = Map.empty, patient_agents = Map.empty\<rparr>)
   \<and> in_relations \<lparr>relations = [Tuple [Obj 0, Obj 1]], agent_patients = Map.empty, patient_agents = Map.empty\<rparr>
        (Obj 0) (Obj 1)
   \<and> \<not> in_agent_patients \<lparr>relations = [Tuple [Obj 0, Obj 1]], agent_patients = Map.empty, patient_agents = Map.empty\<rparr>
        (Obj 0) (Obj 1)
   \<and> \<not> in_patient_agents \<lparr>relations = [Tuple [Obj 0, Obj 1]], agent_patients = Map.empty, patient_agents = Map.empty\<rparr>
        (Obj 0) (Obj 1)"
  by (simp add: eval_defs)

text \<open>
  C2. A store built by the constructor (\<open>new\<close>, then a successful \<open>init\<close>) and changed by
  any sequence of successful \<open>add\<close> and \<open>remove\<close> calls satisfies the index-consistency
  invariant: after construction, after the whole sequence and after every prefix of it.
  The reading operations return the store as it was.
\<close>

theorem index_consistent_reachable:
  assumes "QBAFARelations_new fs0 (Some QBAFARelationsType) = (Inr s0, fs0')"
      and "QBAFARelations_init fs1 s0 args kwds = (Inr (), s1)"
      and "run_calls s1 calls = Some s"
  shows "index_consistent s1 \<and> index_consistent s
       \<and> (\<forall>n. \<exists>t. run_calls s1 (take n calls) = Some t \<and> index_consistent t)
       \<and> (\<forall>fs a k key. snd (QBAFARelations_contains fs s a k) = s
                       \<and> snd (QBAFARelations_sq_contains fs s key) = s
                       \<and> snd (QBAFARelations_patients fs s a k) = s
                       \<and> snd (QBAFARelations_agents fs s a k) = s)"
proof -
  have s0: "s0 = \<lparr>relations = [], agent_patients = Map.empty, patient_agents = Map.empty\<rparr>"
    using new_Inr[OF assms(1)] .
  from init_Inr[OF assms(2)] obtain items where
    rel: "relations s1 = remdups items"
    and ap: "\<forall>a p. in_agent_patients s1 a p = (in_agent_patients s0 a p \<or> Tuple [a, p] \<in> set items)"
    and pa: "\<forall>a p. in_patient_agents s1 a p = (in_patient_agents s0 a p \<or> Tuple [a, p] \<in> set items)"
    by blast
  have c1: "index_consistent s1"
    using rel ap pa s0
    by (simp add: index_consistent_def in_relations_def in_agent_patients_def in_patient_agents_def)
  have c2: "index_consistent s" using run_calls_preserves[OF c1 assms(3)] .
  have c3: "\<exists>t. run_calls s1 (take n calls) = Some t \<and> index_consistent t" for n
  proof -
    from run_calls_prefix[OF assms(3), of n] obtain t where t: "run_calls s1 (take n calls) = Some t"
      by blast
    from run_calls_preserves[OF c1 t] t show ?thesis by blast
  qed
  from c1 c2 c3 show ?thesis
    by (simp add: contains_frame sq_contains_frame patients_frame agents_frame)
qed

theorem index_consistent_reachable_witness:
  "\<exists>s0 s1 s. QBAFARelations_new [] (Some QBAFARelationsType) = (Inr s0, [])
     \<and> QBAFARelations_init [] s0 [PyList [Tuple [Obj 1, Obj 2], Tuple [Obj 3, Obj 2]]] [] = (Inr (), s1)
     \<and> run_calls s1 [Add [] [Obj 1, Obj 4] [], Remove [] [Obj 3, Obj 2] []] = Some s
     \<and> index_consistent s \<and> QBAFARelations_sq_length s = 2"
proof -
  let ?s0 = "\<lparr>relations = [], agent_patients = Map.empty, patient_agents = Map.empty\<rparr>"
  let ?init = "QBAFARelations_init [] ?s0 [PyList [Tuple [Obj 1, Obj 2], Tuple [Obj 3, Obj 2]]] []"
  have new: "QBAFARelations_new [] (Some QBAFARelationsType) = (Inr ?s0, [])"
    by (simp add: eval_defs)
  have "fst ?init = Inr ()"
    by (simp add: eval_defs)
  then obtain s1 where init: "?init = (Inr (), s1)"
    by (cases ?init) auto
  have s1: "s1 = snd ?init" using init by simp
  let ?calls = "[Add [] [Obj 1, Obj 4] [], Remove [] [Obj 3, Obj 2] []]"
  have run: "run_calls s1 ?calls \<noteq> None \<and> QBAFARelations_sq_length (the (run_calls s1 ?calls)) = 2"
    unfolding s1 by (simp add: eval_defs)
  then obtain s where s: "run_calls s1 ?calls = Some s" and len: "QBAFARelations_sq_length s = 2"
    by auto
  from index_consistent_reachable[OF new init s] new init s len show ?thesis by blast
qed

text \<open>
  C5. A store built from a list (or set) \<open>P\<close>: whenever the construction succeeds, its size
  is the number of distinct members of \<open>P\<close> and \<open>contains(a, p)\<close>, run without a failing
  runtime call, returns true for every pair of \<open>P\<close>; and when \<open>P\<close> holds only 2-tuples of
  hashable objects and no runtime call fails, the construction does succeed.
\<close>

theorem create_size_contains:
  assumes "QBAFARelations_new fs0 (Some QBAFARelationsType) = (Inr s0, fs0')"
      and "coll = PyList P \<or> coll = PySet P"
  shows "(\<forall>fs S. QBAFARelations_init fs s0 [coll] [] = (Inr (), S) \<longrightarrow>
            QBAFARelations_sq_length S = int (card (set P))
          \<and> (\<forall>a p. Tuple [a, p] \<in> set P \<longrightarrow> QBAFARelations_contains [] S [a, p] [] = (Inr True, S)))
       \<and> ((\<forall>x\<in>set P. \<exists>a p. x = Tuple [a, p] \<and> hashable a \<and> hashable p) \<longrightarrow>
            (\<exists>S. QBAFARelations_init [] s0 [coll] [] = (Inr (), S)))"
proof (intro conjI allI impI)
  fix fs S
  assume init: "QBAFARelations_init fs s0 [coll] [] = (Inr (), S)"
  have parse: "PyArg_ParseTupleAndKeywords [coll] [] [''relations''] = Some [coll]"
    by (simp add: parse_positional)
  from init_Inr[OF init] parse assms(2) have rel: "relations S = remdups P"
    and hash: "\<forall>x\<in>set P. hashable x"
    by auto
  show "QBAFARelations_sq_length S = int (card (set P))"
    using rel by (simp add: QBAFARelations_sq_length_def PySet_Size_def length_remdups_card_conv)
  fix a p
  assume mem: "Tuple [a, p] \<in> set P"
  with hash have "hashable (Tuple [a, p])" by blast
  then have "hashable a" "hashable p" by simp_all
  from contains_no_faults[OF this, of S] mem rel
  show "QBAFARelations_contains [] S [a, p] [] = (Inr True, S)"
    by (simp add: in_relations_def)
next
  assume "\<forall>x\<in>set P. \<exists>a p. x = Tuple [a, p] \<and> hashable a \<and> hashable p"
  from init_no_faults[OF assms(2) this] show "\<exists>S. QBAFARelations_init [] s0 [coll] [] = (Inr (), S)" .
qed

theorem create_size_contains_witness:
  "\<exists>S. QBAFARelations_init [] \<lparr>relations = [], agent_patients = Map.empty, patient_agents = Map.empty\<rparr>
          [PyList [Tuple [Obj 1, Obj 2], Tuple [Obj 3, Obj 2], Tuple [Obj 1, Obj 2]]] [] = (Inr (), S)
     \<and> QBAFARelations_sq_length S = 2
     \<and> QBAFARelations_contains [] S [Obj 1, Obj 2] [] = (Inr True, S)
     \<and> QBAFARelations_contains [] S [Obj 3, Obj 2] [] = (Inr True, S)"
proof -
  let ?s0 = "\<lparr>relations = [], agent_patients = Map.empty, patient_agents = Map.empty\<rparr>"
  let ?P = "[Tuple [Obj 1, Obj 2], Tuple [Obj 3, Obj 2], Tuple [Obj 1, Obj 2]]"
  have new: "QBAFARelations_new [] (Some QBAFARelationsType) = (Inr ?s0, [])"
    by (simp add: eval_defs)
  have coll: "PyList ?P = PyList ?P \<or> PyList ?P = PySet ?P" by simp
  have valid: "\<forall>x\<in>set ?P. \<exists>a p. x = Tuple [a, p] \<and> hashable a \<and> hashable p" by simp
  note main = create_size_contains[OF new coll]
  from main valid obtain S where init: "QBAFARelations_init [] ?s0 [PyList ?P] [] = (Inr (), S)"
    by blast
  have "length (remdups ?P) = 2" by simp
  then have card: "card (set ?P) = 2" by (simp only: length_remdups_card_conv)
  from main init have "QBAFARelations_sq_length S = int (card (set ?P))"
    and "QBAFARelations_contains [] S [Obj 1, Obj 2] [] = (Inr True, S)"
    and "QBAFARelations_contains [] S [Obj 3, Obj 2] [] = (Inr True, S)"
    by auto
  with init card show ?thesis by auto
qed

text \<open>
  C6 fails on the code: \<open>copy\<close> never returns a store. Whatever the store and whatever
  the runtime does, the call ends in the NULL dereference of \<open>QBAFARelations_new\<close>.
\<close>

theorem copy_crashes:
  "QBAFARelations_copy fs self = (Inl Crash, self)"
  by (simp add: QBAFARelations_copy_def QBAFARelations_new_def)

text \<open>
  C8. \<open>remove(a, p)\<close> never deletes a bucket entry: whatever the outcome of the call, both
  mappings keep exactly the keys they had. So on a consistent store that holds the pair,
  \<open>a\<close> is still a key of \<open>agent_patients\<close> and \<open>p\<close> still a key of \<open>patient_agents\<close> after
  the call; and when the call succeeds on a store holding the pair, the two buckets are the
  old buckets with the member discarded, empty or not.
\<close>

theorem remove_keeps_buckets:
  assumes "QBAFARelations_remove fs self [a, p] [] = (r, self')"
  shows "dom (agent_patients self') = dom (agent_patients self)
       \<and> dom (patient_agents self') = dom (patient_agents self)
       \<and> (index_consistent self \<and> in_relations self a p \<longrightarrow>
            a \<in> dom (agent_patients self') \<and> p \<in> dom (patient_agents self'))
       \<and> (in_relations self a p \<and> r = Inr () \<longrightarrow>
            (\<exists>b1 b2. agent_patients self a = Some b1 \<and> agent_patients self' a = Some (removeAll p b1)
                   \<and> patient_agents self p = Some b2 \<and> patient_agents self' p = Some (removeAll a b2)))"
proof -
  have s': "self' = snd (QBAFARelations_remove fs self [a, p] [])" using assms by simp
  have d1: "dom (agent_patients self') = dom (agent_patients self)"
    unfolding s' by (rule remove_dom_agent_patients)
  have d2: "dom (patient_agents self') = dom (patient_agents self)"
    unfolding s' by (rule remove_dom_patient_agents)
  have k: "a \<in> dom (agent_patients self') \<and> p \<in> dom (patient_agents self')"
    if "index_consistent self \<and> in_relations self a p"
  proof -
    from that have "in_agent_patients self a p" and "in_patient_agents self a p"
      by (auto simp: index_consistent_def)
    then have "a \<in> dom (agent_patients self)" "p \<in> dom (patient_agents self)"
      by (auto simp: in_agent_patients_def in_patient_agents_def split: option.splits)
    with d1 d2 show ?thesis by simp
  qed
  have b: "\<exists>b1 b2. agent_patients self a = Some b1 \<and> agent_patients self' a = Some (removeAll p b1)
              \<and> patient_agents self p = Some b2 \<and> patient_agents self' p = Some (removeAll a b2)"
    if "in_relations self a p \<and> r = Inr ()"
  proof -
    from that assms have ok: "QBAFARelations_remove fs self [a, p] [] = (Inr (), self')" by simp
    have parse: "PyArg_ParseTupleAndKeywords [a, p] [] [''agent'', ''patient''] = Some [a, p]"
      by (simp add: parse_positional)
    from remove_Inr[OF ok] parse that show ?thesis by auto
  qed
  from d1 d2 k b show ?thesis by blast
qed

theorem remove_keeps_buckets_witness:
  "QBAFARelations_remove []
      \<lparr>relations = [Tuple [Obj 1, Obj 2]], agent_patients = [Obj 1 \<mapsto> [Obj 2]], patient_agents = [Obj 2 \<mapsto> [Obj 1]]\<rparr>
      [Obj 1, Obj 2] []
     = (Inr (), \<lparr>relations = [], agent_patients = [Obj 1 \<mapsto> []], patient_agents = [Obj 2 \<mapsto> []]\<rparr>)
   \<and> Obj 1 \<in> dom (agent_patients \<lparr>relations = [], agent_patients = [Obj 1 \<mapsto> []], patient_agents = [Obj 2 \<mapsto> []]\<rparr>)
   \<and> Obj 2 \<in> dom (patient_agents \<lparr>relations = [], agent_patients = [Obj 1 \<mapsto> []], patient_agents = [Obj 2 \<mapsto> []]\<rparr>)"
proof -
  let ?s = "\<lparr>relations = [Tuple [Obj 1, Obj 2]], agent_patients = [Obj 1 \<mapsto> [Obj 2]], patient_agents = [Obj 2 \<mapsto> [Obj 1]]\<rparr>"
  let ?t = "\<lparr>relations = [], agent_patients = [Obj 1 \<mapsto> []], patient_agents = [Obj 2 \<mapsto> []]\<rparr>"
  have run: "QBAFARelations_remove [] ?s [Obj 1, Obj 2] [] = (Inr (), ?t)"
    by (simp add: eval_defs)
  have inv: "index_consistent ?s"
    by (auto simp: index_consistent_def in_relations_def in_agent_patients_def in_patient_agents_def)
  have mem: "in_relations ?s (Obj 1) (Obj 2)" by (simp add: in_relations_def)
  from remove_keeps_buckets[OF run] inv mem
  have "Obj 1 \<in> dom (agent_patients ?t) \<and> Obj 2 \<in> dom (patient_agents ?t)" by blast
  with run show ?thesis by blast
qed

text \<open>
  C9. The membership test on a key that is not a tuple of exactly two elements ends with a
  \<open>TypeError\<close>, whatever the runtime does, and returns the store as it was: the \<open>in\<close>
  operator for any such key object, and the \<open>contains\<close> method for any positional argument
  tuple that is not of length two.
\<close>

theorem membership_rejects_malformed_key:
  "((\<forall>a p. key \<noteq> Tuple [a, p]) \<longrightarrow> QBAFARelations_sq_contains fs self key = (Inl TypeError, self))
   \<and> (length args \<noteq> 2 \<longrightarrow> QBAFARelations_contains fs self args [] = (Inl TypeError, self))"
proof (intro conjI impI)
  assume "\<forall>a p. key \<noteq> Tuple [a, p]"
  then show "QBAFARelations_sq_contains fs self key = (Inl TypeError, self)"
    by (auto simp: QBAFARelations_sq_contains_def split: pyobj.splits list.splits)
next
  assume "length args \<noteq> 2"
  then have "PyArg_ParseTupleAndKeywords args [] [''agent'', ''patient''] = None"
    by (intro parse_wrong_count) simp
  then show "QBAFARelations_contains fs self args [] = (Inl TypeError, self)"
    by (simp add: QBAFARelations_contains_def)
qed

theorem membership_rejects_malformed_key_witness:
  "QBAFARelations_sq_contains [] \<lparr>relations = [Tuple [Obj 1, Obj 2]], agent_patients = [Obj 1 \<mapsto> [Obj 2]], patient_agents = [Obj 2 \<mapsto> [Obj 1]]\<rparr>
      (Tuple [Obj 1, Obj 2, Obj 3])
     = (Inl TypeError, \<lparr>relations = [Tuple [Obj 1, Obj 2]], agent_patients = [Obj 1 \<mapsto> [Obj 2]], patient_agents = [Obj 2 \<mapsto> [Obj 1]]\<rparr>)
   \<and> QBAFARelations_contains [] \<lparr>relations = [Tuple [Obj 1, Obj 2]], agent_patients = [Obj 1 \<mapsto> [Obj 2]], patient_agents = [Obj 2 \<mapsto> [Obj 1]]\<rparr>
      [Obj 1] []
     = (Inl TypeError, \<lparr>relations = [Tuple [Obj 1, Obj 2]], agent_patients = [Obj 1 \<mapsto> [Obj 2]], patient_agents = [Obj 2 \<mapsto> [Obj 1]]\<rparr>)"
proof -
  let ?s = "\<lparr>relations = [Tuple [Obj 1, Obj 2]], agent_patients = [Obj 1 \<mapsto> [Obj 2]], patient_agents = [Obj 2 \<mapsto> [Obj 1]]\<rparr>"
  have k: "\<forall>a p. Tuple [Obj 1, Obj 2, Obj 3] \<noteq> Tuple [a, p]" by simp
  have n: "length [Obj 1] \<noteq> 2" by simp
  from membership_rejects_malformed_key[of "Tuple [Obj 1, Obj 2, Obj 3]" "[]" ?s "[Obj 1]"] k n
  show ?thesis by blast
qed


section \<open>Claims about the set utilities\<close>

lemma disjoint_loop_Inr:
  "disjoint_loop fs xs s2 = Inr b \<Longrightarrow> b = (set xs \<inter> set s2 = {})"
proof (induction xs arbitrary: fs)
  case Nil
  then show ?case by simp
next
  case (Cons x xs)
  show ?case
  proof (cases "PySet_Contains fs s2 x")
    case (Pair r fs1)
    with Cons.prems obtain c where r: "r = Inr c" by (cases r) auto
    from Pair r have c: "c = (x \<in> set s2)" by (auto dest: PySet_Contains_Inr)
    show ?thesis
    proof (cases c)
      case True
      with Cons.prems Pair r c show ?thesis by auto
    next
      case False
      with Cons.prems Pair r have "disjoint_loop fs1 xs s2 = Inr b" by simp
      from Cons.IH[OF this] False c show ?thesis by auto
    qed
  qed
qed

lemma disjoint_loop_no_faults:
  "\<forall>x\<in>set xs. hashable x \<Longrightarrow> disjoint_loop [] xs s2 = Inr (set xs \<inter> set s2 = {})"
  by (induction xs) (auto simp: PySet_Contains_def attempt_Nil)

lemma intersection_loop_Inr:
  "intersection_loop fs xs s2 new = Inr i \<Longrightarrow> set i = set new \<union> (set xs \<inter> set s2)"
proof (induction xs arbitrary: fs new)
  case Nil
  then show ?case by simp
next
  case (Cons x xs)
  show ?case
  proof (cases "PySet_Contains fs s2 x")
    case (Pair r fs1)
    with Cons.prems obtain c where r: "r = Inr c" by (cases r) auto
    from Pair r have c: "c = (x \<in> set s2)" by (auto dest: PySet_Contains_Inr)
    show ?thesis
    proof (cases c)
      case True
      show ?thesis
      proof (cases "PySet_Add fs1 new x")
        case (Pair r2 fs2)
        with Cons.prems \<open>PySet_Contains fs s2 x = (r, fs1)\<close> r True obtain new' where
          r2: "r2 = Inr new'" by (cases r2) auto
        from Pair r2 have new': "new' = List.insert x new" by (auto dest: PySet_Add_Inr)
        from Cons.prems \<open>PySet_Contains fs s2 x = (r, fs1)\<close> r True Pair r2
        have "intersection_loop fs2 xs s2 new' = Inr i" by simp
        from Cons.IH[OF this] new' True c show ?thesis by auto
      qed
    next
      case False
      with Cons.prems Pair r have "intersection_loop fs1 xs s2 new = Inr i" by simp
      from Cons.IH[OF this] False c show ?thesis by auto
    qed
  qed
qed

lemma intersection_loop_no_faults:
  "\<forall>x\<in>set xs. hashable x \<Longrightarrow> \<exists>i. intersection_loop [] xs s2 new = Inr i"
  by (induction xs arbitrary: new) (auto simp: PySet_Contains_def PySet_Add_def attempt_Nil)

lemma IsDisjoint_Inr:
  assumes "PySet_IsDisjoint fs A B = Inr b"
  shows "b = (set A \<inter> set B = {})"
proof -
  obtain r fs1 where it: "PyObject_GetIter fs = (r, fs1)" by (cases "PyObject_GetIter fs")
  with assms obtain u where r: "r = Inr u"
    by (cases r) (auto simp: PySet_IsDisjoint_def split: if_splits)
  show ?thesis
  proof (cases "PySet_GET_SIZE A > PySet_GET_SIZE B")
    case True
    with assms it r have "disjoint_loop fs1 B A = Inr b" by (simp add: PySet_IsDisjoint_def)
    from disjoint_loop_Inr[OF this] show ?thesis by auto
  next
    case False
    with assms it r have "disjoint_loop fs1 A B = Inr b" by (simp add: PySet_IsDisjoint_def)
    from disjoint_loop_Inr[OF this] show ?thesis by auto
  qed
qed

lemma Intersection_Inr:
  assumes "PySet_Intersection fs A B = Inr i"
  shows "set i = set A \<inter> set B"
proof -
  obtain r fs1 where it: "PyObject_GetIter fs = (r, fs1)" by (cases "PyObject_GetIter fs")
  with assms obtain u where r: "r = Inr u"
    by (cases r) (auto simp: PySet_Intersection_def split: if_splits)
  show ?thesis
  proof (cases "PySet_GET_SIZE A > PySet_GET_SIZE B")
    case True
    with assms it r have "intersection_loop fs1 B A [] = Inr i" by (simp add: PySet_Intersection_def)
    from intersection_loop_Inr[OF this] show ?thesis by auto
  next
    case False
    with assms it r have "intersection_loop fs1 A B [] = Inr i" by (simp add: PySet_Intersection_def)
    from intersection_loop_Inr[OF this] show ?thesis by auto
  qed
qed

lemma IsDisjoint_no_faults:
  assumes "\<forall>x\<in>set A \<union> set B. hashable x"
  shows "PySet_IsDisjoint [] A B = Inr (set A \<inter> set B = {})"
proof (cases "PySet_GET_SIZE A > PySet_GET_SIZE B")
  case True
  from assms have "\<forall>x\<in>set B. hashable x" by simp
  from disjoint_loop_no_faults[OF this, of A] True show ?thesis
    by (auto simp: PySet_IsDisjoint_def PyObject_GetIter_def attempt_Nil)
next
  case False
  from assms have "\<forall>x\<in>set A. hashable x" by simp
  from disjoint_loop_no_faults[OF this, of B] False show ?thesis
    by (auto simp: PySet_IsDisjoint_def PyObject_GetIter_def attempt_Nil)
qed

lemma Intersection_no_faults:
  assumes "\<forall>x\<in>set A \<union> set B. hashable x"
  shows "\<exists>i. PySet_Intersection [] A B = Inr i"
proof (cases "PySet_GET_SIZE A > PySet_GET_SIZE B")
  case True
  from assms have "\<forall>x\<in>set B. hashable x" by simp
  from intersection_loop_no_faults[OF this, of A "[]"] True show ?thesis
    by (auto simp: PySet_Intersection_def PyObject_GetIter_def attempt_Nil)
next
  case False
  from assms have "\<forall>x\<in>set A. hashable x" by simp
  from intersection_loop_no_faults[OF this, of B "[]"] False show ?thesis
    by (auto simp: PySet_Intersection_def PyObject_GetIter_def attempt_Nil)
qed

text \<open>
  C7. Whenever \<open>PySet_IsDisjoint\<close> returns a truth value for \<open>(A, B)\<close>, every truth value
  it returns for \<open>(B, A)\<close> is the same one, and it is true exactly when a set returned by
  \<open>PySet_Intersection\<close> for \<open>(A, B)\<close> is empty; and on sets of hashable elements, with no
  failing runtime call, all three calls do return such values.
\<close>

theorem disjoint_symmetric_iff_intersection_empty:
  "(PySet_IsDisjoint fs A B = Inr b \<and> PySet_IsDisjoint fs' B A = Inr b' \<longrightarrow> b = b')
   \<and> (PySet_IsDisjoint fs A B = Inr b \<and> PySet_Intersection fs'' A B = Inr i \<longrightarrow> b = (i = []))
   \<and> ((\<forall>x\<in>set A \<union> set B. hashable x) \<longrightarrow>
        (\<exists>c j. PySet_IsDisjoint [] A B = Inr c \<and> PySet_IsDisjoint [] B A = Inr c
              \<and> PySet_Intersection [] A B = Inr j \<and> c = (j = [])))"
proof (intro conjI impI)
  assume "PySet_IsDisjoint fs A B = Inr b \<and> PySet_IsDisjoint fs' B A = Inr b'"
  then show "b = b'" by (auto dest!: IsDisjoint_Inr)
next
  assume "PySet_IsDisjoint fs A B = Inr b \<and> PySet_Intersection fs'' A B = Inr i"
  then have "b = (set A \<inter> set B = {})" and "set i = set A \<inter> set B"
    by (auto dest!: IsDisjoint_Inr Intersection_Inr)
  then show "b = (i = [])" by auto
next
  assume h: "\<forall>x\<in>set A \<union> set B. hashable x"
  then have h': "\<forall>x\<in>set B \<union> set A. hashable x" by auto
  from Intersection_no_faults[OF h] obtain j where j: "PySet_Intersection [] A B = Inr j" by blast
  from Intersection_Inr[OF j] have "(set A \<inter> set B = {}) = (j = [])" by auto
  with IsDisjoint_no_faults[OF h] IsDisjoint_no_faults[OF h'] j
  show "\<exists>c j. PySet_IsDisjoint [] A B = Inr c \<and> PySet_IsDisjoint [] B A = Inr c
              \<and> PySet_Intersection [] A B = Inr j \<and> c = (j = [])"
    by (auto simp: Int_commute)
qed

theorem disjoint_symmetric_iff_intersection_empty_witness:
  "PySet_IsDisjoint [] [Obj 1, Obj 2] [Obj 2, Obj 3, Obj 4] = Inr False
   \<and> PySet_IsDisjoint [] [Obj 2, Obj 3, Obj 4] [Obj 1, Obj 2] = Inr False
   \<and> PySet_Intersection [] [Obj 1, Obj 2] [Obj 2, Obj 3, Obj 4] = Inr [Obj 2]"
proof -
  let ?A = "[Obj 1, Obj 2]" and ?B = "[Obj 2, Obj 3, Obj 4]"
  have d1: "PySet_IsDisjoint [] ?A ?B = Inr False"
    by (simp add: PySet_IsDisjoint_def PySet_GET_SIZE_def eval_defs)
  have d2: "PySet_IsDisjoint [] ?B ?A = Inr False"
    by (simp add: PySet_IsDisjoint_def PySet_GET_SIZE_def eval_defs)
  have i: "PySet_Intersection [] ?A ?B = Inr [Obj 2]"
    by (simp add: PySet_Intersection_def PySet_GET_SIZE_def eval_defs)
  from disjoint_symmetric_iff_intersection_empty[of "[]" ?A ?B False "[]" False "[]" "[Obj 2]"] d1 d2 i
  show ?thesis by simp
qed


section \<open>Claims about the subsets of a given size\<close>

lemma size_minus_1_wrap:
  assumes "PY_SSIZE_T_MIN \<le> s" and "s \<le> PY_SSIZE_T_MAX"
  shows "size_minus_1 s = ssize_wrap (s - 1)"
proof (cases "s = PY_SSIZE_T_MIN")
  case True
  then show ?thesis
    by (simp add: size_minus_1_def ssize_wrap_def PY_SSIZE_T_MIN_def PY_SSIZE_T_MAX_def)
next
  case False
  with assms have "0 \<le> s - 1 + 2 ^ 63" and "s - 1 + 2 ^ 63 < 2 ^ 64"
    by (simp_all add: PY_SSIZE_T_MIN_def PY_SSIZE_T_MAX_def)
  then have "(s - 1 + 2 ^ 63) mod 2 ^ 64 = s - 1 + 2 ^ 63"
    by (rule mod_pos_pos_trivial)
  with False show ?thesis by (simp add: size_minus_1_def ssize_wrap_def)
qed

lemma insert_fresh_props:
  assumes "x \<notin> set xs" and "distinct r \<and> int (length r) = k - 1 \<and> set r \<subseteq> set xs"
  shows "distinct (List.insert x r) \<and> int (length (List.insert x r)) = k \<and> set (List.insert x r) \<subseteq> set (x # xs)"
proof -
  from assms have "x \<notin> set r" by auto
  then have "List.insert x r = x # r" by (simp add: List.insert_def)
  with assms \<open>x \<notin> set r\<close> show ?thesis by auto
qed

lemma members_props:
  shows "xs \<noteq> [] \<Longrightarrow> distinct xs \<Longrightarrow> 1 \<le> k \<Longrightarrow> k \<le> int (length xs) \<Longrightarrow>
           length (subsets_members xs k) = (length xs choose nat k)
         \<and> (\<forall>r\<in>set (subsets_members xs k). distinct r \<and> int (length r) = k \<and> set r \<subseteq> set xs)"
    and "distinct xs \<Longrightarrow> 2 \<le> k \<Longrightarrow> k \<le> int (length xs) \<Longrightarrow>
           length (loop_members xs k acc) = length acc + (length xs choose nat k)
         \<and> (\<forall>r\<in>set (loop_members xs k acc).
               r \<in> set acc \<or> (distinct r \<and> int (length r) = k \<and> set r \<subseteq> set xs))"
proof (induction xs k and xs k acc rule: subsets_members_loop_members.induct)
  case (1 xs k)
  show ?case
  proof (cases "k = 1")
    case True
    with 1(2) show ?thesis by (auto simp: subsets_members.simps)
  next
    case False
    with 1(4) have k2: "2 \<le> k" by simp
    from 1(1)[OF 1(2) False 1(3) k2 1(5)] 1(2) False show ?thesis by (simp add: subsets_members.simps)
  qed
next
  case (2 k acc)
  then show ?case by simp
next
  case (3 x rest k acc)
  let ?new = "map (List.insert x) (subsets_members rest (k - 1))"
  from "3.prems" have d: "distinct rest" and fresh: "x \<notin> set rest" by auto
  from "3.prems" have len: "k - 1 \<le> int (length rest)" and k1: "1 \<le> k - 1" by auto
  have dec: "size_minus_1 k = k - 1"
    using "3.prems" by (simp add: size_minus_1_def PY_SSIZE_T_MIN_def)
  from len k1 have ne: "rest \<noteq> []" by auto
  have sub: "length (subsets_members rest (k - 1)) = (length rest choose nat (k - 1))
         \<and> (\<forall>r\<in>set (subsets_members rest (k - 1)). distinct r \<and> int (length r) = k - 1 \<and> set r \<subseteq> set rest)"
  proof (cases "int (length rest) < k")
    case True
    from "3.IH"(1)[unfolded dec, OF True ne d k1 len] show ?thesis .
  next
    case False
    from "3.IH"(2)[unfolded dec, OF False ne d k1 len] show ?thesis .
  qed
  have new_len: "length ?new = (length rest choose nat (k - 1))" using sub by simp
  have new_props: "\<forall>r\<in>set ?new. distinct r \<and> int (length r) = k \<and> set r \<subseteq> set (x # rest)"
  proof
    fix r assume "r \<in> set ?new"
    then obtain r0 where r0: "r0 \<in> set (subsets_members rest (k - 1))" and r: "r = List.insert x r0"
      by auto
    from sub r0 have "distinct r0 \<and> int (length r0) = k - 1 \<and> set r0 \<subseteq> set rest" by blast
    from insert_fresh_props[OF fresh this] r
    show "distinct r \<and> int (length r) = k \<and> set r \<subseteq> set (x # rest)" by simp
  qed
  have nk: "nat k = Suc (nat (k - 1))" using k1 by simp
  show ?case
  proof (cases "int (length rest) < k")
    case True
    with len have eq: "length rest = nat (k - 1)" by simp
    have res: "loop_members (x # rest) k acc = acc @ ?new" using True by (simp add: dec)
    have "length (x # rest) = nat k" using eq nk by simp
    then have "(length (x # rest) choose nat k) = 1" by simp
    moreover have "length ?new = 1" using new_len eq by simp
    ultimately have "length (loop_members (x # rest) k acc) = length acc + (length (x # rest) choose nat k)"
      unfolding res by simp
    moreover have "\<forall>r\<in>set (loop_members (x # rest) k acc).
        r \<in> set acc \<or> (distinct r \<and> int (length r) = k \<and> set r \<subseteq> set (x # rest))"
    proof
      fix r assume "r \<in> set (loop_members (x # rest) k acc)"
      then have "r \<in> set acc \<or> r \<in> set ?new" unfolding res by (simp only: set_append Un_iff)
      with new_props show "r \<in> set acc \<or> (distinct r \<and> int (length r) = k \<and> set r \<subseteq> set (x # rest))"
        by blast
    qed
    ultimately show ?thesis by blast
  next
    case False
    then have le: "k \<le> int (length rest)" by simp
    from "3.prems" have k2: "2 \<le> k" by simp
    note ih = "3.IH"(3)[unfolded dec, OF False d k2 le]
    have res: "loop_members (x # rest) k acc = loop_members rest k (acc @ ?new)" using False by (simp add: dec)
    have "(length (x # rest) choose nat k) = (length rest choose nat (k - 1)) + (length rest choose nat k)"
      unfolding nk by simp
    with ih new_len have "length (loop_members (x # rest) k acc) = length acc + (length (x # rest) choose nat k)"
      unfolding res by simp
    moreover have "\<forall>r\<in>set (loop_members (x # rest) k acc).
        r \<in> set acc \<or> (distinct r \<and> int (length r) = k \<and> set r \<subseteq> set (x # rest))"
    proof
      fix r assume "r \<in> set (loop_members (x # rest) k acc)"
      with res ih have "r \<in> set (acc @ ?new) \<or> (distinct r \<and> int (length r) = k \<and> set r \<subseteq> set rest)"
        by metis
      then have "r \<in> set acc \<or> r \<in> set ?new \<or> (distinct r \<and> int (length r) = k \<and> set r \<subseteq> set rest)"
        by (simp only: set_append Un_iff) blast
      moreover have "set rest \<subseteq> set (x # rest)" by auto
      ultimately show "r \<in> set acc \<or> (distinct r \<and> int (length r) = k \<and> set r \<subseteq> set (x # rest))"
        using new_props by blast
    qed
    ultimately show ?thesis by blast
  qed
qed

lemma attempt_cases:
  "attempt fs r = (r', fs') \<Longrightarrow> (r' = r \<or> (\<exists>e. r' = Inl e)) \<and> (fs = [] \<longrightarrow> r' = r \<and> fs' = [])"
  by (auto simp: attempt_def split: list.splits option.splits)

lemma singletons_loop_frame:
  "singletons_loop xs list h fs = (r, h', fs') \<Longrightarrow>
     length h \<le> length h' \<and> (\<forall>a<length h. h' ! a = h ! a)"
proof (induction xs arbitrary: list h fs)
  case Nil
  then show ?case by simp
next
  case (Cons x xs)
  obtain r1 fs1 where a: "PySet_Add fs [] x = (r1, fs1)" by (cases "PySet_Add fs [] x")
  show ?case
  proof (cases r1)
    case (Inl e)
    with Cons.prems a show ?thesis by (auto simp: nth_append)
  next
    case (Inr s)
    with Cons.prems a have "singletons_loop xs (list @ [length h]) (h @ [s]) fs1 = (r, h', fs')" by simp
    from Cons.IH[OF this] show ?thesis by (auto simp: nth_append)
  qed
qed

lemma upt_shift: "[n..<n + Suc m] = n # [Suc n..<Suc n + m]"
  by (subst upt_conv_Cons) simp_all

lemma singletons_loop_Inr:
  "singletons_loop xs list h fs = (Inr l, h', fs') \<Longrightarrow>
     l = list @ [length h..<length h + length xs] \<and> h' = h @ map (\<lambda>x. [x]) xs"
proof (induction xs arbitrary: list h fs)
  case Nil
  then show ?case by simp
next
  case (Cons x xs)
  obtain r1 fs1 where a: "PySet_Add fs [] x = (r1, fs1)" by (cases "PySet_Add fs [] x")
  with Cons.prems obtain s where r1: "r1 = Inr s" by (cases r1) auto
  from a r1 have s: "s = [x]" by (auto dest: PySet_Add_Inr)
  from Cons.prems a r1 have "singletons_loop xs (list @ [length h]) (h @ [s]) fs1 = (Inr l, h', fs')" by simp
  from Cons.IH[OF this] s have l: "l = (list @ [length h]) @ [Suc (length h)..<Suc (length h) + length xs]"
    and h': "h' = (h @ [[x]]) @ map (\<lambda>x. [x]) xs" by simp_all
  have "[length h..<length h + length (x # xs)] = length h # [Suc (length h)..<Suc (length h) + length xs]"
    using upt_shift[of "length h" "length xs"] by simp
  with l h' show ?case by (simp only: append_assoc append_Cons append_Nil list.map)
qed

lemma singletons_loop_no_faults:
  "\<forall>x\<in>set xs. hashable x \<Longrightarrow> \<exists>l h'. singletons_loop xs list h [] = (Inr l, h', [])"
  by (induction xs arbitrary: list h) (auto simp: PySet_Add_def attempt_Nil)

lemma extend_loop_frame:
  "extend_loop sl item list h fs = (r, h', fs') \<Longrightarrow>
     length h' = length h \<and> (\<forall>a. a \<notin> set sl \<longrightarrow> h' ! a = h ! a)"
proof (induction sl arbitrary: list h fs)
  case Nil
  then show ?case by simp
next
  case (Cons sub sl)
  show ?case
  proof (cases "sub < length h")
    case False
    with Cons.prems show ?thesis by simp
  next
    case True
    obtain r1 fs1 where a: "PySet_Add fs (h ! sub) item = (r1, fs1)" by (cases "PySet_Add fs (h ! sub) item")
    show ?thesis
    proof (cases r1)
      case (Inl e)
      with Cons.prems a True show ?thesis by simp
    next
      case (Inr s)
      obtain r2 fs2 where b: "PyList_Append fs1 = (r2, fs2)" by (cases "PyList_Append fs1")
      show ?thesis
      proof (cases r2)
        case (Inl e)
        with Cons.prems a True Inr b show ?thesis by auto
      next
        case (Inr u)
        with Cons.prems a True \<open>r1 = Inr s\<close> b
        have "extend_loop sl item (list @ [sub]) (h[sub := s]) fs2 = (r, h', fs')" by simp
        from Cons.IH[OF this] show ?thesis by auto
      qed
    qed
  qed
qed

lemma extend_loop_Inr:
  "extend_loop sl item list h fs = (Inr l, h', fs') \<Longrightarrow>
     l = list @ sl \<and> (\<forall>a\<in>set sl. a < length h \<and> h' ! a = List.insert item (h ! a))"
proof (induction sl arbitrary: list h fs)
  case Nil
  then show ?case by simp
next
  case (Cons sub sl)
  from Cons.prems have valid: "sub < length h" by (auto split: if_splits)
  obtain r1 fs1 where a: "PySet_Add fs (h ! sub) item = (r1, fs1)" by (cases "PySet_Add fs (h ! sub) item")
  with Cons.prems valid obtain s where r1: "r1 = Inr s" by (cases r1) auto
  from a r1 have s: "s = List.insert item (h ! sub)" by (auto dest: PySet_Add_Inr)
  obtain r2 fs2 where b: "PyList_Append fs1 = (r2, fs2)" by (cases "PyList_Append fs1")
  with Cons.prems valid a r1 obtain u where r2: "r2 = Inr u" by (cases r2) auto
  from Cons.prems valid a r1 b r2
  have rec: "extend_loop sl item (list @ [sub]) (h[sub := s]) fs2 = (Inr l, h', fs')" by simp
  note ih = Cons.IH[OF rec]
  note fr = extend_loop_frame[OF rec]
  have ins: "List.insert item (List.insert item xs) = List.insert item xs" for xs :: "pyobj list"
    by (simp add: List.insert_def)
  have "h' ! sub = List.insert item (h ! sub)"
  proof (cases "sub \<in> set sl")
    case True
    with ih have "h' ! sub = List.insert item (h[sub := s] ! sub)" by blast
    with valid s ins show ?thesis by simp
  next
    case False
    with fr have "h' ! sub = h[sub := s] ! sub" by blast
    with valid s show ?thesis by simp
  qed
  moreover have "a < length h \<and> h' ! a = List.insert item (h ! a)" if "a \<in> set sl" "a \<noteq> sub" for a
  proof -
    from ih that(1) have "a < length (h[sub := s])" and "h' ! a = List.insert item (h[sub := s] ! a)"
      by blast+
    with that(2) show ?thesis by simp
  qed
  ultimately have "\<forall>a\<in>set (sub # sl). a < length h \<and> h' ! a = List.insert item (h ! a)"
    using valid by (metis set_ConsD)
  moreover from ih have "l = list @ sub # sl" by simp
  ultimately show ?case by blast
qed

lemma extend_loop_no_faults:
  "hashable item \<Longrightarrow> \<forall>a\<in>set sl. a < length h \<Longrightarrow> \<exists>l h'. extend_loop sl item list h [] = (Inr l, h', [])"
proof (induction sl arbitrary: list h)
  case Nil
  then show ?case by simp
next
  case (Cons sub sl)
  let ?h = "h[sub := List.insert item (h ! sub)]"
  from Cons.prems have "\<forall>a\<in>set sl. a < length ?h" by simp
  from Cons.IH[OF Cons.prems(1) this, of "list @ [sub]"] Cons.prems show ?case
    by (auto simp: PySet_Add_def PyList_Append_def attempt_Nil)
qed

lemma run_Entry:
  "PySet_SubSets_run (Entry s k) h fs =
     (if \<not> s < length h then Some (Inl Crash, h, fs)
      else if PySet_GET_SIZE (h ! s) = 0 then Some (Inr [length h], h @ [[]], fs)
      else
        (let h0 = (if k \<le> 0 then h @ replicate (length (h ! s)) [] else h) in
         if k = 1 then
           (case PyList_New fs of
              (Inl e, fs1) \<Rightarrow> Some (Inl e, h0, fs1)
            | (Inr u, fs1) \<Rightarrow>
                (case PyObject_GetIter fs1 of
                   (Inl e, fs2) \<Rightarrow> Some (Inl e, h0, fs2)
                 | (Inr v, fs2) \<Rightarrow> Some (singletons_loop (h0 ! s) [] h0 fs2)))
         else
           (case PyList_New fs of
              (Inl e, fs1) \<Rightarrow> Some (Inl e, h0, fs1)
            | (Inr u, fs1) \<Rightarrow>
                (case PySet_New fs1 (h0 ! s) of
                   (Inl e, fs2) \<Rightarrow> Some (Inl e, h0, fs2)
                 | (Inr myset, fs2) \<Rightarrow>
                     PySet_SubSets_run (Loop (length h0) k []) (h0 @ [myset]) fs2))))"
  by (subst PySet_SubSets_run.simps) simp

lemma run_Loop:
  "PySet_SubSets_run (Loop m k l) h fs =
     (if \<not> m < length h then Some (Inl Crash, h, fs)
      else if PySet_GET_SIZE (h ! m) > 0 then
        (case PySet_Pop fs (h ! m) of
           (Inl e, fs1) \<Rightarrow> Some (Inl e, h, fs1)
         | (Inr (item, rest), fs1) \<Rightarrow>
             Option.bind (PySet_SubSets_run (Entry m (size_minus_1 k)) (h[m := rest]) fs1)
               (\<lambda>r. case r of
                  (Inl e, h2, fs2) \<Rightarrow> Some (Inl e, h2, fs2)
                | (Inr subset_list, h2, fs2) \<Rightarrow>
                    (case PyObject_GetIter fs2 of
                       (Inl e, fs3) \<Rightarrow> Some (Inl e, h2, fs3)
                     | (Inr u, fs3) \<Rightarrow>
                         (case extend_loop subset_list item l h2 fs3 of
                            (Inl e, h3, fs4) \<Rightarrow> Some (Inl e, h3, fs4)
                          | (Inr list', h3, fs4) \<Rightarrow>
                              if PySet_GET_SIZE (h3 ! m) < k then Some (Inr list', h3, fs4)
                              else PySet_SubSets_run (Loop m k list') h3 fs4))))
      else Some (Inr l, h, fs))"
  by (subst PySet_SubSets_run.simps) simp

lemma PySet_Pop_Inr: "PySet_Pop fs s = (Inr (x, rest), fs') \<Longrightarrow> s = x # rest"
  by (auto simp: PySet_Pop_def dest!: attempt_Inr split: list.splits)

lemma map_nth_append_upt: "map ((!) (h @ ys)) [length h..<length h + length ys] = ys"
  by (rule nth_equalityI) (auto simp: nth_append)

lemma entry_post_error:
  "length h \<le> length h' \<Longrightarrow> \<forall>a<length h. h' ! a = h ! a \<Longrightarrow> entry_post h s k (Inl e) h'"
  by (simp add: entry_post_def)

lemma loop_post_error:
  "length h \<le> length h' \<Longrightarrow> \<forall>a<length h. a \<noteq> m \<longrightarrow> h' ! a = h ! a \<Longrightarrow> loop_post h m k l (Inl e) h'"
  by (simp add: loop_post_def)

lemma entry_step:
  assumes valid: "s < length h" and ne: "h ! s \<noteq> []" and k: "k \<noteq> 1"
      and h0: "length h \<le> length h0" "\<forall>a<length h. h0 ! a = h ! a"
      and myset: "myset = remdups (h ! s)"
      and lp: "loop_post (h0 @ [myset]) (length h0) k [] r h'"
  shows "entry_post h s k r h'"
proof -
  from lp have len: "length (h0 @ [myset]) \<le> length h'"
    and fr: "\<forall>a<length (h0 @ [myset]). a \<noteq> length h0 \<longrightarrow> h' ! a = (h0 @ [myset]) ! a"
    by (simp_all add: loop_post_def)
  have g1: "length h \<le> length h'" using len h0(1) by simp
  have g2: "\<forall>a<length h. h' ! a = h ! a"
  proof (intro allI impI)
    fix a assume a: "a < length h"
    with h0(1) have "a < length (h0 @ [myset])" "a \<noteq> length h0" by auto
    with fr have "h' ! a = (h0 @ [myset]) ! a" by blast
    also have "\<dots> = h0 ! a" using a h0(1) by (simp add: nth_append)
    also have "\<dots> = h ! a" using a h0(2) by simp
    finally show "h' ! a = h ! a" .
  qed
  have g3: "(\<forall>a\<in>set l. length h \<le> a \<and> a < length h')
          \<and> (distinct (h ! s) \<longrightarrow> map ((!) h') l = subsets_members (h ! s) k)" if r: "r = Inr l" for l
  proof -
    from lp r have fresh: "\<forall>a\<in>set l. a \<in> set [] \<or> (length (h0 @ [myset]) \<le> a \<and> a < length h')"
      and cont: "distinct ((h0 @ [myset]) ! length h0) \<and> (\<forall>a\<in>set []. a < length (h0 @ [myset]) \<and> a \<noteq> length h0)
                 \<longrightarrow> map ((!) h') l = loop_members ((h0 @ [myset]) ! length h0) k (map ((!) (h0 @ [myset])) [])"
      by (simp_all add: loop_post_def)
    from fresh h0(1) have a: "\<forall>a\<in>set l. length h \<le> a \<and> a < length h'" by auto
    have b: "map ((!) h') l = subsets_members (h ! s) k" if d: "distinct (h ! s)"
    proof -
      from d myset have m: "myset = h ! s" by (simp add: distinct_remdups_id)
      with cont d have "map ((!) h') l = loop_members (h ! s) k []" by simp
      with ne k show ?thesis by (simp add: subsets_members.simps)
    qed
    from a b show ?thesis by blast
  qed
  from g1 g2 g3 show ?thesis unfolding entry_post_def by blast
qed

lemma loop_mid:
  assumes valid: "m < length h" and hm: "h ! m = item # rest"
      and ep: "entry_post (h[m := rest]) m (size_minus_1 k) (Inr sl) h2"
      and ext: "extend_loop sl item l h2 fs3 = (r4, h3, fs4)"
  shows "length h \<le> length h3"
    and "\<forall>a<length h. a \<noteq> m \<longrightarrow> h3 ! a = h ! a"
    and "h3 ! m = rest"
    and "\<forall>a\<in>set sl. length h \<le> a \<and> a < length h3"
    and "r4 = Inr l' \<Longrightarrow> l' = l @ sl"
    and "r4 = Inr l' \<Longrightarrow> distinct (h ! m) \<Longrightarrow> \<forall>a\<in>set l. a < length h \<and> a \<noteq> m \<Longrightarrow>
           map ((!) h3) l' = map ((!) h) l @ map (List.insert item) (subsets_members rest (size_minus_1 k))"
proof -
  let ?h1 = "h[m := rest]"
  from ep have len2: "length ?h1 \<le> length h2"
    and fr2: "\<forall>a<length ?h1. h2 ! a = ?h1 ! a"
    and fresh: "\<forall>a\<in>set sl. length ?h1 \<le> a \<and> a < length h2"
    and cont: "distinct (?h1 ! m) \<longrightarrow> map ((!) h2) sl = subsets_members (?h1 ! m) (size_minus_1 k)"
    by (simp_all add: entry_post_def)
  from extend_loop_frame[OF ext] have len3: "length h3 = length h2"
    and fr3: "\<forall>a. a \<notin> set sl \<longrightarrow> h3 ! a = h2 ! a" by simp_all
  have old: "a \<notin> set sl" if "a < length h" for a using fresh that by auto
  show g1: "length h \<le> length h3" using len2 len3 by simp
  show g2: "\<forall>a<length h. a \<noteq> m \<longrightarrow> h3 ! a = h ! a"
  proof (intro allI impI)
    fix a assume a: "a < length h" "a \<noteq> m"
    from old[OF a(1)] fr3 have "h3 ! a = h2 ! a" by blast
    also from a(1) fr2 have "\<dots> = ?h1 ! a" by simp
    also from a(2) have "\<dots> = h ! a" by simp
    finally show "h3 ! a = h ! a" .
  qed
  show g3: "h3 ! m = rest"
  proof -
    from old[OF valid] fr3 have "h3 ! m = h2 ! m" by blast
    also from valid fr2 have "\<dots> = ?h1 ! m" by simp
    also from valid have "\<dots> = rest" by simp
    finally show ?thesis .
  qed
  show g4: "\<forall>a\<in>set sl. length h \<le> a \<and> a < length h3" using fresh len3 by simp
  show g5: "l' = l @ sl" if "r4 = Inr l'"
    using extend_loop_Inr[of sl item l h2 fs3 l' h3 fs4] ext that by simp
  show "map ((!) h3) l' = map ((!) h) l @ map (List.insert item) (subsets_members rest (size_minus_1 k))"
    if r4: "r4 = Inr l'" and d: "distinct (h ! m)" and lv: "\<forall>a\<in>set l. a < length h \<and> a \<noteq> m"
  proof -
    from ext r4 have ext': "extend_loop sl item l h2 fs3 = (Inr l', h3, fs4)" by simp
    from extend_loop_Inr[OF ext'] have ins: "\<forall>a\<in>set sl. h3 ! a = List.insert item (h2 ! a)" by blast
    have a: "map ((!) h3) l = map ((!) h) l"
      using lv g2 by (intro map_cong) auto
    have m1: "map ((!) h3) sl = map (List.insert item) (map ((!) h2) sl)"
      using ins by (simp add: comp_def cong: map_cong)
    from d hm valid have "distinct (?h1 ! m)" and "?h1 ! m = rest" by simp_all
    with cont have m2: "map ((!) h2) sl = subsets_members rest (size_minus_1 k)" by simp
    have b: "map ((!) h3) sl = map (List.insert item) (subsets_members rest (size_minus_1 k))"
      by (simp only: m1 m2)
    from g5[OF r4] a b show ?thesis by simp
  qed
qed

lemma loop_step_return:
  assumes valid: "m < length h" and hm: "h ! m = item # rest"
      and ep: "entry_post (h[m := rest]) m (size_minus_1 k) (Inr sl) h2"
      and ext: "extend_loop sl item l h2 fs3 = (Inr l', h3, fs4)"
      and small: "PySet_GET_SIZE (h3 ! m) < k"
  shows "loop_post h m k l (Inr l') h3"
proof -
  note mid = loop_mid[OF valid hm ep ext]
  from mid(3) small have lt: "int (length rest) < k" by (simp add: PySet_GET_SIZE_def)
  have "\<forall>a\<in>set l'. a \<in> set l \<or> (length h \<le> a \<and> a < length h3)"
    using mid(4) mid(5)[OF refl] by auto
  moreover have "map ((!) h3) l' = loop_members (h ! m) k (map ((!) h) l)"
    if "distinct (h ! m)" "\<forall>a\<in>set l. a < length h \<and> a \<noteq> m"
    using mid(6)[OF refl that] hm lt by simp
  ultimately show ?thesis using mid(1,2) unfolding loop_post_def by blast
qed

lemma loop_step_continue:
  assumes valid: "m < length h" and hm: "h ! m = item # rest"
      and ep: "entry_post (h[m := rest]) m (size_minus_1 k) (Inr sl) h2"
      and ext: "extend_loop sl item l h2 fs3 = (Inr l', h3, fs4)"
      and big: "\<not> PySet_GET_SIZE (h3 ! m) < k"
      and lp: "loop_post h3 m k l' r h'"
  shows "loop_post h m k l r h'"
proof -
  note mid = loop_mid[OF valid hm ep ext]
  from mid(3) big have ge: "\<not> int (length rest) < k" by (simp add: PySet_GET_SIZE_def)
  from lp have len: "length h3 \<le> length h'"
    and fr: "\<forall>a<length h3. a \<noteq> m \<longrightarrow> h' ! a = h3 ! a"
    by (simp_all add: loop_post_def)
  have l': "l' = l @ sl" using mid(5)[OF refl] .
  have g1: "length h \<le> length h'" using mid(1) len by simp
  have g2: "\<forall>a<length h. a \<noteq> m \<longrightarrow> h' ! a = h ! a"
  proof (intro allI impI)
    fix a assume a: "a < length h" "a \<noteq> m"
    with mid(1) fr have "h' ! a = h3 ! a" by simp
    with mid(2) a show "h' ! a = h ! a" by simp
  qed
  have g3: "(\<forall>a\<in>set res. a \<in> set l \<or> (length h \<le> a \<and> a < length h'))
          \<and> (distinct (h ! m) \<and> (\<forall>a\<in>set l. a < length h \<and> a \<noteq> m) \<longrightarrow>
               map ((!) h') res = loop_members (h ! m) k (map ((!) h) l))" if r: "r = Inr res" for res
  proof -
    from lp r have fresh: "\<forall>a\<in>set res. a \<in> set l' \<or> (length h3 \<le> a \<and> a < length h')"
      and cont: "distinct (h3 ! m) \<and> (\<forall>a\<in>set l'. a < length h3 \<and> a \<noteq> m) \<longrightarrow>
                 map ((!) h') res = loop_members (h3 ! m) k (map ((!) h3) l')"
      by (simp_all add: loop_post_def)
    have a: "\<forall>a\<in>set res. a \<in> set l \<or> (length h \<le> a \<and> a < length h')"
    proof
      fix a assume "a \<in> set res"
      with fresh have "a \<in> set l' \<or> (length h3 \<le> a \<and> a < length h')" by blast
      then show "a \<in> set l \<or> (length h \<le> a \<and> a < length h')"
        using l' mid(1) mid(4) len by auto
    qed
    have b: "map ((!) h') res = loop_members (h ! m) k (map ((!) h) l)"
      if d: "distinct (h ! m)" and lv: "\<forall>a\<in>set l. a < length h \<and> a \<noteq> m"
    proof -
      from d hm mid(3) have d3: "distinct (h3 ! m)" by simp
      have lv': "\<forall>a\<in>set l'. a < length h3 \<and> a \<noteq> m"
        using l' lv mid(1) mid(4) valid by auto
      from cont d3 lv' have "map ((!) h') res = loop_members (h3 ! m) k (map ((!) h3) l')" by blast
      also have "\<dots> = loop_members rest k (map ((!) h) l @ map (List.insert item) (subsets_members rest (size_minus_1 k)))"
        using mid(3) mid(6)[OF refl d lv] by simp
      also have "\<dots> = loop_members (h ! m) k (map ((!) h) l)"
        using hm ge by simp
      finally show ?thesis .
    qed
    from a b show ?thesis by blast
  qed
  from g1 g2 g3 show ?thesis unfolding loop_post_def by blast
qed

lemma run_post:
  "\<exists>r h' fs'. PySet_SubSets_run fr h fs = Some (r, h', fs')
     \<and> (case fr of Entry s k \<Rightarrow> entry_post h s k r h' | Loop m k l \<Rightarrow> loop_post h m k l r h')"
proof (induction "frame_measure fr h" arbitrary: fr h fs rule: less_induct)
  case less
  show ?case
  proof (cases fr)
    case (Entry s k)
    have "\<exists>r h' fs'. PySet_SubSets_run (Entry s k) h fs = Some (r, h', fs') \<and> entry_post h s k r h'"
    proof (cases "s < length h")
      case False
      then have "PySet_SubSets_run (Entry s k) h fs = Some (Inl Crash, h, fs)"
        by (simp add: run_Entry)
      moreover have "entry_post h s k (Inl Crash) h" by (simp add: entry_post_error)
      ultimately show ?thesis by blast
    next
      case valid: True
      show ?thesis
      proof (cases "h ! s = []")
        case True
        with valid have "PySet_SubSets_run (Entry s k) h fs = Some (Inr [length h], h @ [[]], fs)"
          by (simp add: run_Entry PySet_GET_SIZE_def)
        moreover have "entry_post h s k (Inr [length h]) (h @ [[]])"
          using True by (simp add: entry_post_def nth_append subsets_members.simps)
        ultimately show ?thesis by blast
      next
        case ne: False
        define h0 where "h0 = (if k \<le> 0 then h @ replicate (length (h ! s)) [] else h)"
        have h0: "length h \<le> length h0" "\<forall>a<length h. h0 ! a = h ! a"
          by (auto simp: h0_def nth_append)
        have h0s: "h0 ! s = h ! s" using valid h0(2) by simp
        note err = entry_post_error[OF h0]
        obtain r1 fs1 where a1: "PyList_New fs = (r1, fs1)" by (cases "PyList_New fs")
        show ?thesis
        proof (cases "k = 1")
          case True
          then have hh: "h0 = h" by (simp add: h0_def)
          have run: "PySet_SubSets_run (Entry s k) h fs =
              (case r1 of Inl e \<Rightarrow> Some (Inl e, h, fs1)
               | Inr u \<Rightarrow> (case PyObject_GetIter fs1 of
                    (Inl e, fs2) \<Rightarrow> Some (Inl e, h, fs2)
                  | (Inr v, fs2) \<Rightarrow> Some (singletons_loop (h ! s) [] h fs2)))"
            using valid ne True a1 by (simp add: run_Entry PySet_GET_SIZE_def)
          show ?thesis
          proof (cases r1)
            case (Inl e)
            with run err hh show ?thesis by auto
          next
            case (Inr u)
            obtain r2 fs2 where a2: "PyObject_GetIter fs1 = (r2, fs2)" by (cases "PyObject_GetIter fs1")
            show ?thesis
            proof (cases r2)
              case (Inl e)
              with run \<open>r1 = Inr u\<close> a2 err hh show ?thesis by auto
            next
              case r2: (Inr v)
              obtain r h' fs' where sl: "singletons_loop (h ! s) [] h fs2 = (r, h', fs')"
                by (cases "singletons_loop (h ! s) [] h fs2")
              with run \<open>r1 = Inr u\<close> a2 r2 have res: "PySet_SubSets_run (Entry s k) h fs = Some (r, h', fs')"
                by simp
              note fr = singletons_loop_frame[OF sl]
              have "(\<forall>a\<in>set l. length h \<le> a \<and> a < length h')
                  \<and> (distinct (h ! s) \<longrightarrow> map ((!) h') l = subsets_members (h ! s) k)" if "r = Inr l" for l
              proof -
                from sl that have "singletons_loop (h ! s) [] h fs2 = (Inr l, h', fs')" by simp
                from singletons_loop_Inr[OF this]
                have l: "l = [length h..<length h + length (h ! s)]"
                  and h': "h' = h @ map (\<lambda>x. [x]) (h ! s)" by simp_all
                have "map ((!) h') l = map (\<lambda>x. [x]) (h ! s)"
                  unfolding l h' using map_nth_append_upt[of h "map (\<lambda>x. [x]) (h ! s)"] by simp
                with ne True have "map ((!) h') l = subsets_members (h ! s) k"
                  by (simp add: subsets_members.simps)
                moreover have "\<forall>a\<in>set l. length h \<le> a \<and> a < length h'"
                  unfolding l h' by simp
                ultimately show ?thesis by blast
              qed
              with fr have "entry_post h s k r h'" unfolding entry_post_def by blast
              with res show ?thesis by blast
            qed
          qed
        next
          case k: False
          have run: "PySet_SubSets_run (Entry s k) h fs =
              (case r1 of Inl e \<Rightarrow> Some (Inl e, h0, fs1)
               | Inr u \<Rightarrow> (case PySet_New fs1 (h0 ! s) of
                    (Inl e, fs2) \<Rightarrow> Some (Inl e, h0, fs2)
                  | (Inr myset, fs2) \<Rightarrow> PySet_SubSets_run (Loop (length h0) k []) (h0 @ [myset]) fs2))"
            using valid ne k a1 unfolding h0_def
            by (simp add: run_Entry PySet_GET_SIZE_def Let_def)
          show ?thesis
          proof (cases r1)
            case (Inl e)
            with run err show ?thesis by auto
          next
            case (Inr u)
            obtain r2 fs2 where a2: "PySet_New fs1 (h0 ! s) = (r2, fs2)" by (cases "PySet_New fs1 (h0 ! s)")
            show ?thesis
            proof (cases r2)
              case (Inl e)
              with run \<open>r1 = Inr u\<close> a2 err show ?thesis by auto
            next
              case r2: (Inr myset)
              from a2 r2 h0s have myset: "myset = remdups (h ! s)" by (auto dest: PySet_New_Inr)
              have "2 * length (remdups (h ! s)) < Suc (2 * length (h ! s))"
                using length_remdups_leq[of "h ! s"] by linarith
              then have "frame_measure (Loop (length h0) k []) (h0 @ [myset]) < frame_measure fr h"
                using Entry myset by (simp add: frame_measure_def)
              from less.hyps[OF this, of fs2] obtain r h' fs' where
                rec: "PySet_SubSets_run (Loop (length h0) k []) (h0 @ [myset]) fs2 = Some (r, h', fs')"
                and lp: "loop_post (h0 @ [myset]) (length h0) k [] r h'" by auto
              from run \<open>r1 = Inr u\<close> a2 r2 rec
              have "PySet_SubSets_run (Entry s k) h fs = Some (r, h', fs')" by simp
              moreover note entry_step[OF valid ne k h0 myset lp]
              ultimately show ?thesis by blast
            qed
          qed
        qed
      qed
    qed
    with Entry show ?thesis by simp
  next
    case (Loop m k l)
    have "\<exists>r h' fs'. PySet_SubSets_run (Loop m k l) h fs = Some (r, h', fs') \<and> loop_post h m k l r h'"
    proof (cases "m < length h")
      case False
      then have "PySet_SubSets_run (Loop m k l) h fs = Some (Inl Crash, h, fs)"
        by (simp add: run_Loop)
      moreover have "loop_post h m k l (Inl Crash) h" by (simp add: loop_post_error)
      ultimately show ?thesis by blast
    next
      case valid: True
      show ?thesis
      proof (cases "h ! m")
        case Nil
        with valid have "PySet_SubSets_run (Loop m k l) h fs = Some (Inr l, h, fs)"
          by (simp add: run_Loop PySet_GET_SIZE_def)
        moreover have "loop_post h m k l (Inr l) h"
          using Nil by (simp add: loop_post_def)
        ultimately show ?thesis by blast
      next
        case (Cons item rest)
        obtain r1 fs1 where a1: "PySet_Pop fs (h ! m) = (r1, fs1)" by (cases "PySet_Pop fs (h ! m)")
        show ?thesis
        proof (cases r1)
          case (Inl e)
          with valid Cons a1 have "PySet_SubSets_run (Loop m k l) h fs = Some (Inl e, h, fs1)"
            by (simp add: run_Loop PySet_GET_SIZE_def)
          moreover have "loop_post h m k l (Inl e) h" by (simp add: loop_post_error)
          ultimately show ?thesis by blast
        next
          case (Inr p)
          with a1 Cons have p: "p = (item, rest)"
            by (cases p) (auto dest: PySet_Pop_Inr)
          let ?h1 = "h[m := rest]"
          have "frame_measure (Entry m (size_minus_1 k)) ?h1 < frame_measure fr h"
            using Loop Cons valid by (simp add: frame_measure_def)
          from less.hyps[OF this, of fs1] obtain r2 h2 fs2 where
            rec: "PySet_SubSets_run (Entry m (size_minus_1 k)) ?h1 fs1 = Some (r2, h2, fs2)"
            and ep: "entry_post ?h1 m (size_minus_1 k) r2 h2" by auto
          have run: "PySet_SubSets_run (Loop m k l) h fs =
              (case r2 of Inl e \<Rightarrow> Some (Inl e, h2, fs2)
               | Inr subset_list \<Rightarrow>
                   (case PyObject_GetIter fs2 of
                      (Inl e, fs3) \<Rightarrow> Some (Inl e, h2, fs3)
                    | (Inr u, fs3) \<Rightarrow>
                        (case extend_loop subset_list item l h2 fs3 of
                           (Inl e, h3, fs4) \<Rightarrow> Some (Inl e, h3, fs4)
                         | (Inr list', h3, fs4) \<Rightarrow>
                             if PySet_GET_SIZE (h3 ! m) < k then Some (Inr list', h3, fs4)
                             else PySet_SubSets_run (Loop m k list') h3 fs4)))"
            using valid Cons a1 Inr p rec by (simp add: run_Loop PySet_GET_SIZE_def split: sum.splits)
          from ep have len2: "length h \<le> length h2"
            and fr2: "\<forall>a<length h. a \<noteq> m \<longrightarrow> h2 ! a = h ! a"
            by (auto simp: entry_post_def)
          note err2 = loop_post_error[OF len2 fr2]
          show ?thesis
          proof (cases r2)
            case (Inl e)
            with run err2 show ?thesis by auto
          next
            case r2: (Inr sl)
            obtain r3 fs3 where a3: "PyObject_GetIter fs2 = (r3, fs3)" by (cases "PyObject_GetIter fs2")
            show ?thesis
            proof (cases r3)
              case (Inl e)
              with run r2 a3 err2 show ?thesis by auto
            next
              case r3: (Inr u)
              obtain r4 h3 fs4 where ext: "extend_loop sl item l h2 fs3 = (r4, h3, fs4)"
                by (cases "extend_loop sl item l h2 fs3")
              from ep r2 have ep': "entry_post ?h1 m (size_minus_1 k) (Inr sl) h2" by simp
              note mid = loop_mid[OF valid Cons ep' ext]
              show ?thesis
              proof (cases r4)
                case (Inl e)
                with run r2 a3 r3 ext have "PySet_SubSets_run (Loop m k l) h fs = Some (Inl e, h3, fs4)"
                  by simp
                moreover have "loop_post h m k l (Inl e) h3"
                  using mid(1,2) by (rule loop_post_error)
                ultimately show ?thesis by blast
              next
                case r4: (Inr l')
                from ext r4 have ext': "extend_loop sl item l h2 fs3 = (Inr l', h3, fs4)" by simp
                show ?thesis
                proof (cases "PySet_GET_SIZE (h3 ! m) < k")
                  case True
                  with run r2 a3 r3 ext' have "PySet_SubSets_run (Loop m k l) h fs = Some (Inr l', h3, fs4)"
                    by simp
                  moreover note loop_step_return[OF valid Cons ep' ext' True]
                  ultimately show ?thesis by blast
                next
                  case False
                  have "frame_measure (Loop m k l') h3 < frame_measure fr h"
                    using Loop Cons mid(3) by (simp add: frame_measure_def)
                  from less.hyps[OF this, of fs4] obtain r h' fs' where
                    rec2: "PySet_SubSets_run (Loop m k l') h3 fs4 = Some (r, h', fs')"
                    and lp: "loop_post h3 m k l' r h'" by auto
                  from run r2 a3 r3 ext' False rec2
                  have "PySet_SubSets_run (Loop m k l) h fs = Some (r, h', fs')" by simp
                  moreover note loop_step_continue[OF valid Cons ep' ext' False lp]
                  ultimately show ?thesis by blast
                qed
              qed
            qed
          qed
        qed
      qed
    qed
    with Loop show ?thesis by simp
  qed
qed

lemma run_post_Entry:
  assumes "PySet_SubSets_run (Entry s k) h fs = Some (r, h', fs')"
  shows "entry_post h s k r h'"
  using run_post[of "Entry s k" h fs] assms by auto

lemma run_no_faults:
  assumes "case fr of Entry s k \<Rightarrow> s < length h \<and> (\<forall>x\<in>set (h ! s). hashable x)
                    | Loop m k l \<Rightarrow> m < length h \<and> (\<forall>x\<in>set (h ! m). hashable x)"
  shows "\<exists>l h'. PySet_SubSets_run fr h [] = Some (Inr l, h', [])"
  using assms
proof (induction "frame_measure fr h" arbitrary: fr h rule: less_induct)
  case less
  show ?case
  proof (cases fr)
    case (Entry s k)
    with less.prems have valid: "s < length h" and hash: "\<forall>x\<in>set (h ! s). hashable x" by simp_all
    have "\<exists>l h'. PySet_SubSets_run (Entry s k) h [] = Some (Inr l, h', [])"
    proof (cases "h ! s = []")
      case True
      with valid show ?thesis by (simp add: run_Entry PySet_GET_SIZE_def)
    next
      case ne: False
      define h0 where "h0 = (if k \<le> 0 then h @ replicate (length (h ! s)) [] else h)"
      have h0s: "h0 ! s = h ! s" using valid by (simp add: h0_def nth_append)
      show ?thesis
      proof (cases "k = 1")
        case True
        from singletons_loop_no_faults[OF hash, of "[]" h] obtain l h' where
          "singletons_loop (h ! s) [] h [] = (Inr l, h', [])" by blast
        with valid ne True show ?thesis
          by (simp add: run_Entry PySet_GET_SIZE_def PyList_New_def PyObject_GetIter_def attempt_Nil)
      next
        case k: False
        let ?myset = "remdups (h ! s)"
        have run: "PySet_SubSets_run (Entry s k) h [] =
                   PySet_SubSets_run (Loop (length h0) k []) (h0 @ [?myset]) []"
          using valid ne k hash h0s unfolding h0_def
          by (simp add: run_Entry PySet_GET_SIZE_def PyList_New_def PySet_New_def attempt_Nil Let_def)
        have "2 * length (remdups (h ! s)) < Suc (2 * length (h ! s))"
          using length_remdups_leq[of "h ! s"] by linarith
        then have m: "frame_measure (Loop (length h0) k []) (h0 @ [?myset]) < frame_measure fr h"
          using Entry by (simp add: frame_measure_def)
        have "case Loop (length h0) k [] of Entry s k \<Rightarrow> s < length (h0 @ [?myset]) \<and> (\<forall>x\<in>set ((h0 @ [?myset]) ! s). hashable x)
                    | Loop m k l \<Rightarrow> m < length (h0 @ [?myset]) \<and> (\<forall>x\<in>set ((h0 @ [?myset]) ! m). hashable x)"
          using hash by simp
        from less.hyps[OF m this] run show ?thesis by simp
      qed
    qed
    with Entry show ?thesis by simp
  next
    case (Loop m k l)
    with less.prems have valid: "m < length h" and hash: "\<forall>x\<in>set (h ! m). hashable x" by simp_all
    have "\<exists>l' h'. PySet_SubSets_run (Loop m k l) h [] = Some (Inr l', h', [])"
    proof (cases "h ! m")
      case Nil
      with valid show ?thesis by (simp add: run_Loop PySet_GET_SIZE_def)
    next
      case (Cons item rest)
      let ?h1 = "h[m := rest]"
      from hash Cons have hi: "hashable item" and hr: "\<forall>x\<in>set rest. hashable x" by simp_all
      have m1: "frame_measure (Entry m (size_minus_1 k)) ?h1 < frame_measure fr h"
        using Loop Cons valid by (simp add: frame_measure_def)
      have "case Entry m (size_minus_1 k) of Entry s k \<Rightarrow> s < length ?h1 \<and> (\<forall>x\<in>set (?h1 ! s). hashable x)
                    | Loop m k l \<Rightarrow> m < length ?h1 \<and> (\<forall>x\<in>set (?h1 ! m). hashable x)"
        using valid hr by simp
      from less.hyps[OF m1 this] obtain sl h2 where
        rec: "PySet_SubSets_run (Entry m (size_minus_1 k)) ?h1 [] = Some (Inr sl, h2, [])" by blast
      note ep = run_post_Entry[OF rec]
      then have "\<forall>a\<in>set sl. a < length h2" by (simp add: entry_post_def)
      from extend_loop_no_faults[OF hi this, of l] obtain l' h3 where
        ext: "extend_loop sl item l h2 [] = (Inr l', h3, [])" by blast
      note mid = loop_mid[OF valid Cons ep ext]
      have run: "PySet_SubSets_run (Loop m k l) h [] =
                 (if PySet_GET_SIZE (h3 ! m) < k then Some (Inr l', h3, [])
                  else PySet_SubSets_run (Loop m k l') h3 [])"
        using valid Cons rec ext
        by (simp add: run_Loop PySet_GET_SIZE_def PySet_Pop_def PyObject_GetIter_def attempt_Nil)
      show ?thesis
      proof (cases "PySet_GET_SIZE (h3 ! m) < k")
        case True
        with run show ?thesis by simp
      next
        case False
        have m2: "frame_measure (Loop m k l') h3 < frame_measure fr h"
          using Loop Cons mid(3) by (simp add: frame_measure_def)
        have "case Loop m k l' of Entry s k \<Rightarrow> s < length h3 \<and> (\<forall>x\<in>set (h3 ! s). hashable x)
                    | Loop m k l \<Rightarrow> m < length h3 \<and> (\<forall>x\<in>set (h3 ! m). hashable x)"
          using valid mid(1) mid(3) hr by simp
        from less.hyps[OF m2 this] run False show ?thesis by simp
      qed
    qed
    with Loop show ?thesis by simp
  qed
qed

text \<open>
  C3, as amended. On a set \<open>S\<close> (a duplicate-free member list at a valid address) and a
  size \<open>k\<close> with \<open>1 \<le> k \<le> |S|\<close>, or on the empty set with \<open>k = 0\<close>, every successful
  call returns exactly \<open>|S| choose k\<close> subsets; and when the members are hashable and no
  runtime call fails, the call is successful.
\<close>

theorem subsets_count:
  assumes "S < length h" and "distinct (h ! S)"
      and "(1 \<le> k \<and> k \<le> int (length (h ! S))) \<or> (h ! S = [] \<and> k = 0)"
  shows "(PySet_SubSets h fs S k = Some (Inr l, h', fs') \<longrightarrow> length l = (length (h ! S) choose nat k))
       \<and> ((\<forall>x\<in>set (h ! S). hashable x) \<longrightarrow>
            (\<exists>l h'. PySet_SubSets h [] S k = Some (Inr l, h', [])
                   \<and> length l = (length (h ! S) choose nat k)))"
proof -
  have count: "length (subsets_members (h ! S) k) = (length (h ! S) choose nat k)"
  proof (cases "h ! S = []")
    case True
    with assms(3) show ?thesis by (auto simp: subsets_members.simps)
  next
    case False
    with assms(3) have "1 \<le> k" "k \<le> int (length (h ! S))" by auto
    from members_props(1)[OF False assms(2) this] show ?thesis by blast
  qed
  have main: "length l = (length (h ! S) choose nat k)"
    if run: "PySet_SubSets h fs S k = Some (Inr l, h', fs')" for fs l h' fs'
  proof -
    from run have "entry_post h S k (Inr l) h'"
      unfolding PySet_SubSets_def by (rule run_post_Entry)
    with assms(2) have "map ((!) h') l = subsets_members (h ! S) k" by (simp add: entry_post_def)
    then have "length l = length (subsets_members (h ! S) k)" by (metis length_map)
    with count show ?thesis by simp
  qed
  have "\<exists>l h'. PySet_SubSets h [] S k = Some (Inr l, h', []) \<and> length l = (length (h ! S) choose nat k)"
    if hash: "\<forall>x\<in>set (h ! S). hashable x"
  proof -
    have "case Entry S k of Entry s k \<Rightarrow> s < length h \<and> (\<forall>x\<in>set (h ! s). hashable x)
                    | Loop m k l \<Rightarrow> m < length h \<and> (\<forall>x\<in>set (h ! m). hashable x)"
      using assms(1) hash by simp
    from run_no_faults[OF this] obtain l h' where
      run: "PySet_SubSets h [] S k = Some (Inr l, h', [])" unfolding PySet_SubSets_def by blast
    from main[OF run] run show ?thesis by blast
  qed
  with main show ?thesis by blast
qed

theorem subsets_count_witness:
  "PySet_SubSets [[Obj 0, Obj 1, Obj 2]] [] 0 2
     = Some (Inr [2, 3, 4], [[Obj 0, Obj 1, Obj 2], [Obj 2], [Obj 0, Obj 1], [Obj 0, Obj 2], [Obj 1, Obj 2]], [])
   \<and> length [2, 3, 4 :: nat] = (length [Obj 0, Obj 1, Obj 2] choose nat 2)"
proof -
  let ?h = "[[Obj 0, Obj 1, Obj 2]]"
  let ?h' = "[[Obj 0, Obj 1, Obj 2], [Obj 2], [Obj 0, Obj 1], [Obj 0, Obj 2], [Obj 1, Obj 2]]"
  have run: "PySet_SubSets ?h [] 0 2 = Some (Inr [2, 3, 4], ?h', [])"
    by code_simp
  have a: "0 < length ?h" "distinct (?h ! 0)"
    "(1 \<le> (2::int) \<and> 2 \<le> int (length (?h ! 0))) \<or> (?h ! 0 = [] \<and> (2::int) = 0)"
    by simp_all
  from subsets_count[OF a, of "[]" "[2, 3, 4]" ?h' "[]"] run
  have c: "length [2, 3, 4 :: nat] = (length (?h ! 0) choose nat 2)" by blast
  have z: "?h ! 0 = [Obj 0, Obj 1, Obj 2]" by simp
  from c have "length [2, 3, 4 :: nat] = (length [Obj 0, Obj 1, Obj 2] choose nat 2)"
    unfolding z .
  with run show ?thesis by blast
qed

text \<open>
  C3, as stated, fails at \<open>k = 0\<close>: on the two-element set the call returns two sets
  (\<open>{0, 1}\<close> and \<open>{1}\<close>), and \<open>2 choose 0\<close> is 1.
\<close>

theorem subsets_count_counterexample:
  "PySet_SubSets [[Obj 0, Obj 1]] [] 0 0
     = Some (Inr [6, 7], [[Obj 0, Obj 1], [], [], [], [], [], [Obj 0, Obj 1], [Obj 1]], [])
   \<and> length [6, 7 :: nat] \<noteq> (length [Obj 0, Obj 1] choose nat 0)"
proof -
  have "PySet_SubSets [[Obj 0, Obj 1]] [] 0 0
     = Some (Inr [6, 7], [[Obj 0, Obj 1], [], [], [], [], [], [Obj 0, Obj 1], [Obj 1]], [])"
    by code_simp
  then show ?thesis by simp
qed

text \<open>
  C4. On a non-empty set \<open>S\<close> and \<open>1 \<le> k \<le> |S|\<close>, every set of the list a successful
  call returns has exactly \<open>k\<close> members, all of them members of \<open>S\<close>. On the empty set the
  call returns, for every \<open>k\<close> and whatever the runtime does, the list of one new set,
  which is empty. With hashable members and no failing runtime call, the call succeeds.
\<close>

theorem subsets_elements:
  assumes "S < length h" and "distinct (h ! S)"
  shows "(h ! S \<noteq> [] \<and> 1 \<le> k \<and> k \<le> int (length (h ! S))
            \<and> PySet_SubSets h fs S k = Some (Inr l, h', fs') \<longrightarrow>
          (\<forall>a\<in>set l. a < length h' \<and> distinct (h' ! a) \<and> int (card (set (h' ! a))) = k
                    \<and> set (h' ! a) \<subseteq> set (h ! S)))
       \<and> (h ! S = [] \<longrightarrow> PySet_SubSets h fs S k = Some (Inr [length h], h @ [[]], fs)
                        \<and> (h @ [[]]) ! length h = [])
       \<and> ((\<forall>x\<in>set (h ! S). hashable x) \<longrightarrow> (\<exists>l h'. PySet_SubSets h [] S k = Some (Inr l, h', [])))"
proof (intro conjI impI)
  assume a: "h ! S \<noteq> [] \<and> 1 \<le> k \<and> k \<le> int (length (h ! S))
            \<and> PySet_SubSets h fs S k = Some (Inr l, h', fs')"
  then have run: "PySet_SubSets_run (Entry S k) h fs = Some (Inr l, h', fs')"
    by (simp add: PySet_SubSets_def)
  note ep = run_post_Entry[OF run]
  with assms(2) have m: "map ((!) h') l = subsets_members (h ! S) k"
    and fresh: "\<forall>a\<in>set l. a < length h'" by (simp_all add: entry_post_def)
  from a have "h ! S \<noteq> []" "1 \<le> k" "k \<le> int (length (h ! S))" by simp_all
  note props = members_props(1)[OF this(1) assms(2) this(2,3)]
  show "\<forall>a\<in>set l. a < length h' \<and> distinct (h' ! a) \<and> int (card (set (h' ! a))) = k
                    \<and> set (h' ! a) \<subseteq> set (h ! S)"
  proof
    fix a assume al: "a \<in> set l"
    then have "h' ! a \<in> set (map ((!) h') l)" by simp
    with m have "h' ! a \<in> set (subsets_members (h ! S) k)" by simp
    with props have "distinct (h' ! a) \<and> int (length (h' ! a)) = k \<and> set (h' ! a) \<subseteq> set (h ! S)"
      by blast
    with al fresh show "a < length h' \<and> distinct (h' ! a) \<and> int (card (set (h' ! a))) = k
                    \<and> set (h' ! a) \<subseteq> set (h ! S)"
      by (simp add: distinct_card)
  qed
next
  assume "h ! S = []"
  with assms(1) show "PySet_SubSets h fs S k = Some (Inr [length h], h @ [[]], fs)"
    by (simp add: PySet_SubSets_def run_Entry PySet_GET_SIZE_def)
next
  show "(h @ [[]]) ! length h = []" by simp
next
  assume hash: "\<forall>x\<in>set (h ! S). hashable x"
  have "case Entry S k of Entry s k \<Rightarrow> s < length h \<and> (\<forall>x\<in>set (h ! s). hashable x)
                    | Loop m k l \<Rightarrow> m < length h \<and> (\<forall>x\<in>set (h ! m). hashable x)"
    using assms(1) hash by simp
  from run_no_faults[OF this] show "\<exists>l h'. PySet_SubSets h [] S k = Some (Inr l, h', [])"
    unfolding PySet_SubSets_def .
qed

theorem subsets_elements_witness:
  "PySet_SubSets [[Obj 0, Obj 1, Obj 2]] [] 0 2
     = Some (Inr [2, 3, 4], [[Obj 0, Obj 1, Obj 2], [Obj 2], [Obj 0, Obj 1], [Obj 0, Obj 2], [Obj 1, Obj 2]], [])
   \<and> card (set ([[Obj 0, Obj 1, Obj 2], [Obj 2], [Obj 0, Obj 1], [Obj 0, Obj 2], [Obj 1, Obj 2]] ! 3)) = 2
   \<and> PySet_SubSets [[]] [] 0 5 = Some (Inr [1], [[], []], [])"
proof -
  let ?h = "[[Obj 0, Obj 1, Obj 2]]"
  let ?h' = "[[Obj 0, Obj 1, Obj 2], [Obj 2], [Obj 0, Obj 1], [Obj 0, Obj 2], [Obj 1, Obj 2]]"
  have run: "PySet_SubSets ?h [] 0 2 = Some (Inr [2, 3, 4], ?h', [])"
    by code_simp
  have a: "0 < length ?h" "distinct (?h ! 0)" by simp_all
  have pre: "?h ! 0 \<noteq> [] \<and> 1 \<le> (2::int) \<and> 2 \<le> int (length (?h ! 0))
            \<and> PySet_SubSets ?h [] 0 2 = Some (Inr [2, 3, 4], ?h', [])"
    using run by simp
  from subsets_elements[OF a, of 2 "[]" "[2, 3, 4]" ?h' "[]"] pre
  have "\<forall>a\<in>set [2, 3, 4]. a < length ?h' \<and> distinct (?h' ! a) \<and> int (card (set (?h' ! a))) = 2
                    \<and> set (?h' ! a) \<subseteq> set (?h ! 0)" by blast
  then have "int (card (set (?h' ! 3))) = 2" by simp
  then have c: "card (set (?h' ! 3)) = 2" by linarith
  have b: "0 < length [[] :: pyobj list]" "distinct ([[] :: pyobj list] ! 0)" by simp_all
  from subsets_elements[OF b, of 5 "[]"] have e: "PySet_SubSets [[]] [] 0 5 = Some (Inr [1], [[], []], [])"
    by simp
  from run c e show ?thesis by blast
qed

text \<open>
  C10. A call of \<open>PySet_SubSets\<close> always returns, for every set and every size (the
  sizes at which \<open>size-1\<close> wraps around included), and whatever it returns (a list or an
  error) every set that existed before the call has the members it had: the input set
  among them. Only sets the call created itself are popped from or added to.
\<close>

theorem subsets_leaves_input_unchanged:
  "\<exists>r h' fs'. PySet_SubSets h fs S k = Some (r, h', fs')
     \<and> length h \<le> length h' \<and> (\<forall>a<length h. h' ! a = h ! a)
     \<and> (S < length h \<longrightarrow> h' ! S = h ! S)"
proof -
  from run_post[of "Entry S k" h fs] obtain r h' fs' where
    run: "PySet_SubSets_run (Entry S k) h fs = Some (r, h', fs')" and ep: "entry_post h S k r h'"
    by auto
  from ep have "length h \<le> length h'" and "\<forall>a<length h. h' ! a = h ! a"
    by (simp_all add: entry_post_def)
  with run show ?thesis unfolding PySet_SubSets_def by blast
qed

theorem subsets_leaves_input_unchanged_witness:
  "PySet_SubSets [[Obj 0, Obj 1, Obj 2]] [] 0 2
     = Some (Inr [2, 3, 4], [[Obj 0, Obj 1, Obj 2], [Obj 2], [Obj 0, Obj 1], [Obj 0, Obj 2], [Obj 1, Obj 2]], [])
   \<and> [[Obj 0, Obj 1, Obj 2], [Obj 2], [Obj 0, Obj 1], [Obj 0, Obj 2], [Obj 1, Obj 2]] ! 0 = [Obj 0, Obj 1, Obj 2]
   \<and> PySet_SubSets [[Obj 0, Obj 1, Obj 2]] [] 0 PY_SSIZE_T_MIN
     = Some (Inr [7, 9, 10],
             [[Obj 0, Obj 1, Obj 2], [], [], [], [], [Obj 2], [], [Obj 0, Obj 1, Obj 2], [], [Obj 1, Obj 2], [Obj 2]], [])
   \<and> [[Obj 0, Obj 1, Obj 2], [], [], [], [], [Obj 2], [], [Obj 0, Obj 1, Obj 2], [], [Obj 1, Obj 2], [Obj 2]] ! 0
     = [Obj 0, Obj 1, Obj 2]"
proof -
  let ?h = "[[Obj 0, Obj 1, Obj 2]]"
  let ?h' = "[[Obj 0, Obj 1, Obj 2], [Obj 2], [Obj 0, Obj 1], [Obj 0, Obj 2], [Obj 1, Obj 2]]"
  let ?g = "[[Obj 0, Obj 1, Obj 2], [], [], [], [], [Obj 2], [], [Obj 0, Obj 1, Obj 2], [], [Obj 1, Obj 2], [Obj 2]]"
  have run: "PySet_SubSets ?h [] 0 2 = Some (Inr [2, 3, 4], ?h', [])"
    by code_simp
  from subsets_leaves_input_unchanged[of ?h "[]" 0 2] obtain r h' fs' where
    r: "PySet_SubSets ?h [] 0 2 = Some (r, h', fs')" and keep: "0 < length ?h \<longrightarrow> h' ! 0 = ?h ! 0"
    by blast
  from r run have "h' = ?h'" by simp
  with keep have one: "?h' ! 0 = [Obj 0, Obj 1, Obj 2]" by simp
  have run_min: "PySet_SubSets ?h [] 0 PY_SSIZE_T_MIN = Some (Inr [7, 9, 10], ?g, [])"
    by code_simp
  from subsets_leaves_input_unchanged[of ?h "[]" 0 PY_SSIZE_T_MIN] obtain r2 g fs2 where
    r2: "PySet_SubSets ?h [] 0 PY_SSIZE_T_MIN = Some (r2, g, fs2)"
    and keep2: "0 < length ?h \<longrightarrow> g ! 0 = ?h ! 0"
    by blast
  from r2 run_min have "g = ?g" by simp
  with keep2 have two: "?g ! 0 = [Obj 0, Obj 1, Obj 2]" by simp
  from run one run_min two show ?thesis by blast
qed

section \<open>Further properties of the relation store\<close>

lemma add_present_frame:
  "in_relations s a p \<Longrightarrow> snd (QBAFARelations_add fs s [a, p] []) = s"
  by (auto simp: QBAFARelations_add_def parse_positional in_relations_def
      dest!: PyTuple_Pack_Inr PySet_Contains_Inr split: prod.split sum.split)

lemma remove_absent_frame:
  "\<not> in_relations s a p \<Longrightarrow> snd (QBAFARelations_remove fs s [a, p] []) = s"
  by (auto simp: QBAFARelations_remove_def parse_positional in_relations_def
      dest!: PyTuple_Pack_Inr PySet_Contains_Inr split: prod.split sum.split)

text \<open>
  X1. \<open>add\<close> is idempotent: after a successful \<open>add(a, p)\<close>, a second \<open>add(a, p)\<close>
  leaves the store, and so its size, as it is, whatever the runtime does.
\<close>

theorem add_idempotent:
  assumes "QBAFARelations_add fs1 s [a, p] [] = (Inr (), s1)"
      and "QBAFARelations_add fs2 s1 [a, p] [] = (r, s2)"
  shows "s2 = s1 \<and> QBAFARelations_sq_length s2 = QBAFARelations_sq_length s1"
proof -
  have parse: "PyArg_ParseTupleAndKeywords [a, p] [] [''agent'', ''patient''] = Some [a, p]"
    by (simp add: parse_positional)
  from add_Inr[OF assms(1)] parse have "in_relations s1 a p"
    by (auto split: if_splits)
  from add_present_frame[OF this, of fs2] assms(2) show ?thesis by simp
qed

theorem add_idempotent_witness:
  "\<exists>s1. QBAFARelations_add [] \<lparr>relations = [], agent_patients = Map.empty, patient_agents = Map.empty\<rparr>
            [Obj 0, Obj 1] [] = (Inr (), s1)
      \<and> QBAFARelations_add [] s1 [Obj 0, Obj 1] [] = (Inr (), s1)"
proof -
  let ?s = "\<lparr>relations = [], agent_patients = Map.empty, patient_agents = Map.empty\<rparr>"
  have "fst (QBAFARelations_add [] ?s [Obj 0, Obj 1] []) = Inr ()"
    by (simp add: eval_defs)
  then obtain s1 where one: "QBAFARelations_add [] ?s [Obj 0, Obj 1] [] = (Inr (), s1)"
    by (cases "QBAFARelations_add [] ?s [Obj 0, Obj 1] []") auto
  then have s1: "s1 = snd (QBAFARelations_add [] ?s [Obj 0, Obj 1] [])" by simp
  have "fst (QBAFARelations_add [] s1 [Obj 0, Obj 1] []) = Inr ()"
    unfolding s1 by (simp add: eval_defs)
  then obtain s2 where two: "QBAFARelations_add [] s1 [Obj 0, Obj 1] [] = (Inr (), s2)"
    by (cases "QBAFARelations_add [] s1 [Obj 0, Obj 1] []") auto
  from add_idempotent[OF one two] one two show ?thesis by auto
qed

text \<open>
  X2. \<open>remove(a, p)\<close> of a pair that is not in the relations set leaves the store
  unchanged, whatever the runtime does.
\<close>

theorem remove_absent_unchanged:
  assumes "\<not> in_relations s a p"
      and "QBAFARelations_remove fs s [a, p] [] = (r, s')"
  shows "s' = s"
  using remove_absent_frame[OF assms(1), of fs] assms(2) by simp

theorem remove_absent_unchanged_witness:
  "QBAFARelations_remove []
      \<lparr>relations = [Tuple [Obj 1, Obj 2]], agent_patients = [Obj 1 \<mapsto> [Obj 2]], patient_agents = [Obj 2 \<mapsto> [Obj 1]]\<rparr>
      [Obj 2, Obj 1] []
     = (Inr (), \<lparr>relations = [Tuple [Obj 1, Obj 2]], agent_patients = [Obj 1 \<mapsto> [Obj 2]], patient_agents = [Obj 2 \<mapsto> [Obj 1]]\<rparr>)"
proof -
  let ?s = "\<lparr>relations = [Tuple [Obj 1, Obj 2]], agent_patients = [Obj 1 \<mapsto> [Obj 2]], patient_agents = [Obj 2 \<mapsto> [Obj 1]]\<rparr>"
  have "fst (QBAFARelations_remove [] ?s [Obj 2, Obj 1] []) = Inr ()"
    by (simp add: eval_defs)
  then obtain s' where run: "QBAFARelations_remove [] ?s [Obj 2, Obj 1] [] = (Inr (), s')"
    by (cases "QBAFARelations_remove [] ?s [Obj 2, Obj 1] []") auto
  have "\<not> in_relations ?s (Obj 2) (Obj 1)" by (simp add: in_relations_def)
  from remove_absent_unchanged[OF this run] run show ?thesis by simp
qed


end
